theory Spec2Isabelle
  imports Main "HOL-Library.Multiset"
begin

section \<open>Data model\<close>

text \<open>
  The parser of \<^verbatim>\<open>pratt.c\<close> turns an infix expression into reverse-polish notation.
  Every token is one character. The three calls of \<^verbatim>\<open>panic\<close> in the parser are the
  three constructors of \<open>error\<close>: \<^verbatim>\<open>"output overflow"\<close>,
  \<^verbatim>\<open>"expected '%c', got '%c'"\<close> and \<^verbatim>\<open>"unexpected character: %c"\<close>.
  A procedure that may panic returns \<open>error + Parser\<close>, with \<open>Inl\<close> for the panic.
\<close>

datatype error =
    OutputOverflow
  | TokenMismatch char char
  | UnexpectedToken char

definition MAX_OUTPUT :: nat where
  "MAX_OUTPUT = 1024"

text \<open>
  The parser state. \<open>input\<close> holds the characters from the cursor on, up to the
  terminating NUL of the C string, which is not stored: reading at the end of the list reads
  the NUL. \<open>output'\<close> holds the characters written so far (the C field \<^verbatim>\<open>output\<close>
  points one past them) and \<open>output_end\<close> is the number of characters the buffer can
  hold (the C field \<^verbatim>\<open>output_end\<close> points one past the last of them).
\<close>

record Parser =
  input :: string
  output' :: string
  output_end :: nat

record Operator =
  precedence :: int
  right_associative :: bool

definition NUL :: char where
  "NUL = CHR 0x00"

section \<open>Cursor and output primitives\<close>

definition emit :: "Parser \<Rightarrow> char \<Rightarrow> error + Parser" where
  "emit p ch =
     (if length (output' p) = output_end p then Inl OutputOverflow
      else Inr (p\<lparr>output' := output' p @ [ch]\<rparr>))"

definition peek_next_char :: "Parser \<Rightarrow> char" where
  "peek_next_char p = (case input p of [] \<Rightarrow> NUL | c # cs \<Rightarrow> c)"

definition next_char :: "Parser \<Rightarrow> char \<times> Parser" where
  "next_char p =
     (let ch = peek_next_char p
      in if ch \<noteq> NUL then (ch, p\<lparr>input := tl (input p)\<rparr>) else (ch, p))"

definition expect :: "Parser \<Rightarrow> char \<Rightarrow> error + Parser" where
  "expect p expected =
     (case next_char p of (got, p1) \<Rightarrow>
        if got \<noteq> expected then Inl (TokenMismatch expected got) else Inr p1)"

text \<open>
  \<^verbatim>\<open>isalpha((unsigned char)ch)\<close> in the "C" locale, which the program never changes:
  true for the 26 upper-case and the 26 lower-case ASCII letters only.
\<close>

definition isalpha :: "char \<Rightarrow> bool" where
  "isalpha ch \<longleftrightarrow>
     (let n = (of_char ch :: nat) in (65 \<le> n \<and> n \<le> 90) \<or> (97 \<le> n \<and> n \<le> 122))"

section \<open>Operator table\<close>

definition assignment_op :: Operator where
  "assignment_op = \<lparr>precedence = 1, right_associative = True\<rparr>"

definition additive_op :: Operator where
  "additive_op = \<lparr>precedence = 10, right_associative = False\<rparr>"

definition multiplicative_op :: Operator where
  "multiplicative_op = \<lparr>precedence = 20, right_associative = False\<rparr>"

definition operator_info :: "char \<Rightarrow> Operator option" where
  "operator_info ch =
     (if ch = CHR ''='' then Some assignment_op
      else if ch = CHR ''+'' \<or> ch = CHR ''-'' then Some additive_op
      else if ch = CHR ''*'' \<or> ch = CHR ''/'' then Some multiplicative_op
      else None)"

section \<open>The two mutually recursive procedures\<close>

text \<open>
  \<^verbatim>\<open>parse_primary\<close> and \<^verbatim>\<open>parse_expr\<close> call each other; the \<^verbatim>\<open>for (;;)\<close> loop of
  \<^verbatim>\<open>parse_expr\<close> is the third function, \<open>parse_expr_loop\<close>, one call per test of the
  loop's exit condition. The termination proof needs that a call never hands back a longer
  input than it was given, which is shown first on the domain of the functions.
\<close>

function parse_primary :: "Parser \<Rightarrow> error + Parser"
  and parse_expr :: "Parser \<Rightarrow> int \<Rightarrow> error + Parser"
  and parse_expr_loop :: "Parser \<Rightarrow> int \<Rightarrow> error + Parser"
where
  "parse_primary p =
     (case next_char p of (ch, p1) \<Rightarrow>
        if ch = CHR ''~'' then
          (case parse_primary p1 of Inl e \<Rightarrow> Inl e | Inr p2 \<Rightarrow> emit p2 (CHR ''~''))
        else if ch = CHR ''('' then
          (case parse_expr p1 0 of Inl e \<Rightarrow> Inl e | Inr p2 \<Rightarrow> expect p2 (CHR '')''))
        else if isalpha ch then emit p1 ch
        else Inl (UnexpectedToken ch))"
| "parse_expr p prec =
     (case parse_primary p of Inl e \<Rightarrow> Inl e | Inr p1 \<Rightarrow> parse_expr_loop p1 prec)"
| "parse_expr_loop p prec =
     (let ch = peek_next_char p in
      case operator_info ch of
        None \<Rightarrow> Inr p
      | Some opi \<Rightarrow>
          if prec \<ge> precedence opi then Inr p
          else
            (case next_char p of (_, p1) \<Rightarrow>
               (case parse_expr p1 (precedence opi - (if right_associative opi then 1 else 0)) of
                  Inl e \<Rightarrow> Inl e
                | Inr p2 \<Rightarrow>
                    (case emit p2 ch of
                       Inl e \<Rightarrow> Inl e
                     | Inr p3 \<Rightarrow> parse_expr_loop p3 prec))))"
  by pat_completeness auto

lemma emit_input: "emit p ch = Inr p' \<Longrightarrow> input p' = input p"
  by (auto simp: emit_def split: if_splits)

lemma next_char_input_le: "next_char p = (ch, p1) \<Longrightarrow> length (input p1) \<le> length (input p)"
  by (auto simp: next_char_def Let_def split: if_splits)

lemma next_char_input_less:
  "next_char p = (ch, p1) \<Longrightarrow> ch \<noteq> NUL \<Longrightarrow> length (input p1) < length (input p)"
  by (auto simp: next_char_def peek_next_char_def Let_def split: if_splits list.splits)

lemma expect_input_le: "expect p c = Inr p' \<Longrightarrow> length (input p') \<le> length (input p)"
  by (auto simp: expect_def split: prod.splits if_splits dest: next_char_input_le)

lemma partial_input_le:
  "parse_primary_parse_expr_parse_expr_loop_dom (Inl p) \<Longrightarrow>
     (\<forall>p'. parse_primary p = Inr p' \<longrightarrow> length (input p') \<le> length (input p))"
  "parse_primary_parse_expr_parse_expr_loop_dom (Inr (Inl (q, f))) \<Longrightarrow>
     (\<forall>p'. parse_expr q f = Inr p' \<longrightarrow> length (input p') \<le> length (input q))"
  "parse_primary_parse_expr_parse_expr_loop_dom (Inr (Inr (r, g))) \<Longrightarrow>
     (\<forall>p'. parse_expr_loop r g = Inr p' \<longrightarrow> length (input p') \<le> length (input r))"
proof (induct rule: parse_primary_parse_expr_parse_expr_loop.pinduct)
  case (1 p)
  obtain ch p1 where nc: "next_char p = (ch, p1)" by (cases "next_char p")
  have le1: "length (input p1) \<le> length (input p)" using nc by (rule next_char_input_le)
  show ?case
  proof (intro allI impI)
    fix p' assume res: "parse_primary p = Inr p'"
    show "length (input p') \<le> length (input p)"
    proof (cases "ch = CHR ''~''")
      case True
      with res nc 1(1) obtain p2 where a: "parse_primary p1 = Inr p2" and b: "emit p2 (CHR ''~'') = Inr p'"
        by (auto simp: parse_primary.psimps split: sum.splits)
      from 1(2)[OF nc[symmetric] True] a have "length (input p2) \<le> length (input p1)" by blast
      with emit_input[OF b] le1 show ?thesis by simp
    next
      case False
      show ?thesis
      proof (cases "ch = CHR ''(''")
        case True
        with res nc 1(1) False obtain p2 where a: "parse_expr p1 0 = Inr p2"
            and b: "expect p2 (CHR '')'') = Inr p'"
          by (auto simp: parse_primary.psimps split: sum.splits)
        from 1(3)[OF nc[symmetric] False True] a have "length (input p2) \<le> length (input p1)" by blast
        with expect_input_le[OF b] le1 show ?thesis by simp
      next
        case nparen: False
        with res nc 1(1) False have "emit p1 ch = Inr p'"
          by (auto simp: parse_primary.psimps split: if_splits)
        with emit_input le1 show ?thesis by fastforce
      qed
    qed
  qed
next
  case (2 p prec)
  show ?case
  proof (intro allI impI)
    fix p' assume res: "parse_expr p prec = Inr p'"
    with 2(1) obtain p1 where a: "parse_primary p = Inr p1" and b: "parse_expr_loop p1 prec = Inr p'"
      by (auto simp: parse_expr.psimps split: sum.splits)
    from 2(2) a have "length (input p1) \<le> length (input p)" by blast
    moreover from 2(3)[OF a] b have "length (input p') \<le> length (input p1)" by blast
    ultimately show "length (input p') \<le> length (input p)" by simp
  qed
next
  case (3 p prec)
  show ?case
  proof (intro allI impI)
    fix p' assume res: "parse_expr_loop p prec = Inr p'"
    show "length (input p') \<le> length (input p)"
    proof (cases "operator_info (peek_next_char p)")
      case None
      with res 3(1) show ?thesis by (simp add: parse_expr_loop.psimps)
    next
      case (Some opi)
      show ?thesis
      proof (cases "precedence opi \<le> prec")
        case True
        with res 3(1) Some show ?thesis by (simp add: parse_expr_loop.psimps)
      next
        case False
        obtain c p1 where nc: "next_char p = (c, p1)" by (cases "next_char p")
        let ?f = "precedence opi - (if right_associative opi then 1 else 0)"
        from res 3(1) Some False nc obtain p2 p3 where
            a: "parse_expr p1 ?f = Inr p2" and b: "emit p2 (peek_next_char p) = Inr p3"
            and c: "parse_expr_loop p3 prec = Inr p'"
          by (auto simp: parse_expr_loop.psimps Let_def split: sum.splits)
        from 3(2)[OF refl Some False nc[symmetric]] a
        have "length (input p2) \<le> length (input p1)" by blast
        moreover from 3(3)[OF refl Some False nc[symmetric] a b] c
        have "length (input p') \<le> length (input p3)" by blast
        ultimately show ?thesis using emit_input[OF b] next_char_input_le[OF nc] by simp
      qed
    qed
  qed
qed

lemma next_char_fst: "next_char p = (ch, p1) \<Longrightarrow> ch = peek_next_char p"
  by (auto simp: next_char_def Let_def split: if_splits)

lemma operator_info_not_NUL: "operator_info ch = Some opi \<Longrightarrow> ch \<noteq> NUL"
  by (auto simp: operator_info_def NUL_def split: if_splits)

lemma all_calls_terminate: "parse_primary_parse_expr_parse_expr_loop_dom x"
proof -
  have "All parse_primary_parse_expr_parse_expr_loop_dom"
  proof (relation "measure (\<lambda>x. case x of
            Inl p \<Rightarrow> 3 * length (input p)
          | Inr (Inl (p, f)) \<Rightarrow> 3 * length (input p) + 2
          | Inr (Inr (p, f)) \<Rightarrow> 3 * length (input p) + 1)", goal_cases)
    case 1
    show ?case by simp
  next
    case (2 p x y)
    then have "length (input y) < length (input p)"
      using next_char_input_less[of p x y] by (simp add: NUL_def)
    then show ?case by simp
  next
    case (3 p x y)
    then have "length (input y) < length (input p)"
      using next_char_input_less[of p x y] by (simp add: NUL_def)
    then show ?case by simp
  next
    case (4 p prec)
    show ?case by simp
  next
    case (5 p prec b)
    then have "length (input b) \<le> length (input p)"
      using partial_input_le(1)[of p] by blast
    then show ?case by simp
  next
    case (6 p prec x x2 xa y)
    then have nc: "next_char p = (xa, y)" by simp
    have "xa \<noteq> NUL"
      using next_char_fst[OF nc] operator_info_not_NUL[of x x2] 6 by simp
    then have "length (input y) < length (input p)"
      using next_char_input_less[OF nc] by simp
    then show ?case by simp
  next
    case (7 p prec x x2 xa y b ba)
    then have nc: "next_char p = (xa, y)" by simp
    have "xa \<noteq> NUL"
      using next_char_fst[OF nc] operator_info_not_NUL[of x x2] 7 by simp
    then have "length (input y) < length (input p)"
      using next_char_input_less[OF nc] by simp
    moreover have "length (input b) \<le> length (input y)"
      using partial_input_le(2)[of y] 7 by blast
    moreover have "input ba = input b"
      using 7 emit_input by blast
    ultimately show ?case by simp
  qed
  then show ?thesis by blast
qed

termination parse_primary
  using all_calls_terminate by blast

declare parse_primary.simps [simp del] parse_expr.simps [simp del]
  parse_expr_loop.simps [simp del]

section \<open>Entry point\<close>

definition parse :: "string \<Rightarrow> error + string" where
  "parse inp =
     (let parser = \<lparr>input = inp, output' = [], output_end = MAX_OUTPUT\<rparr> in
      case parse_expr parser 0 of
        Inl e \<Rightarrow> Inl e
      | Inr p1 \<Rightarrow>
          (case expect p1 NUL of
             Inl e \<Rightarrow> Inl e
           | Inr p2 \<Rightarrow>
               (case emit p2 NUL of
                  Inl e \<Rightarrow> Inl e
                | Inr p3 \<Rightarrow> Inr (output' p3))))"

section \<open>Auxiliary notions for the statements\<close>

text \<open>
  The C string held in a list of characters: the characters before the first NUL. An input
  without a NUL is its own C string.
\<close>

definition c_string :: "string \<Rightarrow> string" where
  "c_string s = takeWhile (\<lambda>c. c \<noteq> NUL) s"

definition is_paren :: "char \<Rightarrow> bool" where
  "is_paren c \<longleftrightarrow> c = CHR ''('' \<or> c = CHR '')''"

text \<open>
  \<open>consumed_emitted p p' cs es\<close>: between the states \<open>p\<close> and \<open>p'\<close> the cursor has moved
  over the characters \<open>cs\<close>, none of them NUL, the characters \<open>es\<close> have been appended
  to the output, the capacity is unchanged, and \<open>es\<close> holds the characters of \<open>cs\<close> that
  are not parentheses, each as often as \<open>cs\<close> does.
\<close>

definition consumed_emitted :: "Parser \<Rightarrow> Parser \<Rightarrow> string \<Rightarrow> string \<Rightarrow> bool" where
  "consumed_emitted p p' cs es \<longleftrightarrow>
     input p = cs @ input p' \<and> NUL \<notin> set cs \<and> output' p' = output' p @ es
     \<and> output_end p' = output_end p
     \<and> mset es = mset (filter (\<lambda>c. \<not> is_paren c) cs)"

text \<open>
  The calls of the three procedures, and which call is made from within which. A
  \<open>Primary\<close> node is a call of \<^verbatim>\<open>parse_primary\<close>, an \<open>Expr\<close> node a call of
  \<^verbatim>\<open>parse_expr\<close>, a \<open>Loop\<close> node one test of the exit condition of its loop with what
  follows it. \<open>subcall c c'\<close>: while \<open>c\<close> runs, it makes the call \<open>c'\<close> (one rule per call
  site of the source, under the conditions on the path to it). \<open>raises c e\<close>: \<open>c\<close> itself
  panics with \<open>e\<close>, not a call made from it (one rule per call of \<^verbatim>\<open>emit\<close>,
  \<^verbatim>\<open>expect\<close> and \<^verbatim>\<open>panic\<close> in the two procedures).
\<close>

datatype call = Primary Parser | Expr Parser int | Loop Parser int

fun run :: "call \<Rightarrow> error + Parser" where
  "run (Primary p) = parse_primary p"
| "run (Expr p prec) = parse_expr p prec"
| "run (Loop p prec) = parse_expr_loop p prec"

inductive subcall :: "call \<Rightarrow> call \<Rightarrow> bool" where
  unary_operand:
    "next_char p = (CHR ''~'', p1) \<Longrightarrow> subcall (Primary p) (Primary p1)"
| group_body:
    "next_char p = (CHR ''('', p1) \<Longrightarrow> subcall (Primary p) (Expr p1 0)"
| first_primary:
    "subcall (Expr p prec) (Primary p)"
| enter_loop:
    "parse_primary p = Inr p1 \<Longrightarrow> subcall (Expr p prec) (Loop p1 prec)"
| right_operand:
    "operator_info (peek_next_char p) = Some opi \<Longrightarrow> \<not> prec \<ge> precedence opi \<Longrightarrow>
     next_char p = (ch, p1) \<Longrightarrow>
     subcall (Loop p prec)
       (Expr p1 (precedence opi - (if right_associative opi then 1 else 0)))"
| next_iteration:
    "operator_info (peek_next_char p) = Some opi \<Longrightarrow> \<not> prec \<ge> precedence opi \<Longrightarrow>
     next_char p = (ch, p1) \<Longrightarrow>
     parse_expr p1 (precedence opi - (if right_associative opi then 1 else 0)) = Inr p2 \<Longrightarrow>
     emit p2 (peek_next_char p) = Inr p3 \<Longrightarrow>
     subcall (Loop p prec) (Loop p3 prec)"

inductive raises :: "call \<Rightarrow> error \<Rightarrow> bool" where
  unexpected:
    "next_char p = (ch, p1) \<Longrightarrow> ch \<noteq> CHR ''~'' \<Longrightarrow> ch \<noteq> CHR ''('' \<Longrightarrow> \<not> isalpha ch \<Longrightarrow>
     raises (Primary p) (UnexpectedToken ch)"
| variable_overflow:
    "next_char p = (ch, p1) \<Longrightarrow> ch \<noteq> CHR ''~'' \<Longrightarrow> ch \<noteq> CHR ''('' \<Longrightarrow> isalpha ch \<Longrightarrow>
     emit p1 ch = Inl e \<Longrightarrow> raises (Primary p) e"
| unary_overflow:
    "next_char p = (CHR ''~'', p1) \<Longrightarrow> parse_primary p1 = Inr p2 \<Longrightarrow>
     emit p2 (CHR ''~'') = Inl e \<Longrightarrow> raises (Primary p) e"
| group_mismatch:
    "next_char p = (CHR ''('', p1) \<Longrightarrow> parse_expr p1 0 = Inr p2 \<Longrightarrow>
     expect p2 (CHR '')'') = Inl e \<Longrightarrow> raises (Primary p) e"
| operator_overflow:
    "operator_info (peek_next_char p) = Some opi \<Longrightarrow> \<not> prec \<ge> precedence opi \<Longrightarrow>
     next_char p = (ch, p1) \<Longrightarrow>
     parse_expr p1 (precedence opi - (if right_associative opi then 1 else 0)) = Inr p2 \<Longrightarrow>
     emit p2 (peek_next_char p) = Inl e \<Longrightarrow>
     raises (Loop p prec) e"

text \<open>
  The measure of the termination proof: the remaining input first, then the procedure.
\<close>

fun call_measure :: "call \<Rightarrow> nat" where
  "call_measure (Primary p) = 3 * length (input p)"
| "call_measure (Expr p prec) = 3 * length (input p) + 2"
| "call_measure (Loop p prec) = 3 * length (input p) + 1"

text \<open>The state in which \<^verbatim>\<open>parse\<close> starts.\<close>

abbreviation initial :: "string \<Rightarrow> Parser" where
  "initial inp \<equiv> \<lparr>input = inp, output' = [], output_end = MAX_OUTPUT\<rparr>"

text \<open>
  The body of \<^verbatim>\<open>parse\<close> with the capacity of the output buffer as a parameter in place
  of \<^verbatim>\<open>MAX_OUTPUT\<close>, so that \<open>parse\<close> is \<open>parse_capacity MAX_OUTPUT\<close>. With a capacity
  that is large enough it gives the postfix form of an input that is valid otherwise.
\<close>

definition parse_capacity :: "nat \<Rightarrow> string \<Rightarrow> error + string" where
  "parse_capacity cap inp =
     (let parser = \<lparr>input = inp, output' = [], output_end = cap\<rparr> in
      case parse_expr parser 0 of
        Inl e \<Rightarrow> Inl e
      | Inr p1 \<Rightarrow>
          (case expect p1 NUL of
             Inl e \<Rightarrow> Inl e
           | Inr p2 \<Rightarrow>
               (case emit p2 NUL of
                  Inl e \<Rightarrow> Inl e
                | Inr p3 \<Rightarrow> Inr (output' p3))))"

text \<open>
  What a run that ends in the state \<open>p'\<close> becomes when the capacity is \<open>n\<close> instead: the
  same state if its output fits, an overflow if not.
\<close>

definition fits :: "nat \<Rightarrow> Parser \<Rightarrow> error + Parser" where
  "fits n p' = (if length (output' p') \<le> n then Inr (p'\<lparr>output_end := n\<rparr>) else Inl OutputOverflow)"

text \<open>
  The precedence climber as section 4.2 of the specification words it, to be compared with
  \<open>parse_expr\<close>, which is translated from the source. \<open>spec_climber p f r\<close>: called in the
  state \<open>p\<close> with the floor \<open>f\<close>, the climber ends with \<open>r\<close>. Step 1 parses one primary
  expression. Step 2a peeks the next token, without consuming it, and stops when it is not
  a binary operator or when its precedence is at most the floor; step 2b consumes the
  operator; step 2c calls the climber with the new floor, the precedence of the operator,
  less one when the operator is right-associative; step 2d emits the operator, after what
  the right operand emitted; step 2e goes round the loop again. An error ends the climber
  wherever it arises.
\<close>

definition new_floor :: "Operator \<Rightarrow> int" where
  "new_floor opi = (if right_associative opi then precedence opi - 1 else precedence opi)"

definition consume :: "Parser \<Rightarrow> Parser" where
  "consume p = p\<lparr>input := tl (input p)\<rparr>"

inductive spec_climber :: "Parser \<Rightarrow> int \<Rightarrow> error + Parser \<Rightarrow> bool"
  and spec_climber_loop :: "Parser \<Rightarrow> int \<Rightarrow> error + Parser \<Rightarrow> bool"
where
  primary_fails:
    "parse_primary p = Inl e \<Longrightarrow> spec_climber p f (Inl e)"
| primary_then_loop:
    "parse_primary p = Inr p1 \<Longrightarrow> spec_climber_loop p1 f r \<Longrightarrow> spec_climber p f r"
| stop_not_operator:
    "operator_info (peek_next_char p) = None \<Longrightarrow> spec_climber_loop p f (Inr p)"
| stop_precedence:
    "operator_info (peek_next_char p) = Some opi \<Longrightarrow> precedence opi \<le> f \<Longrightarrow>
     spec_climber_loop p f (Inr p)"
| operand_fails:
    "operator_info (peek_next_char p) = Some opi \<Longrightarrow> f < precedence opi \<Longrightarrow>
     spec_climber (consume p) (new_floor opi) (Inl e) \<Longrightarrow>
     spec_climber_loop p f (Inl e)"
| operator_overflows:
    "operator_info (peek_next_char p) = Some opi \<Longrightarrow> f < precedence opi \<Longrightarrow>
     spec_climber (consume p) (new_floor opi) (Inr p2) \<Longrightarrow>
     emit p2 (peek_next_char p) = Inl e \<Longrightarrow>
     spec_climber_loop p f (Inl e)"
| operator_emitted:
    "operator_info (peek_next_char p) = Some opi \<Longrightarrow> f < precedence opi \<Longrightarrow>
     spec_climber (consume p) (new_floor opi) (Inr p2) \<Longrightarrow>
     emit p2 (peek_next_char p) = Inr p3 \<Longrightarrow>
     spec_climber_loop p3 f r \<Longrightarrow>
     spec_climber_loop p f r"

text \<open>
  A chain \<open>v\<^sub>0 o\<^sub>1 v\<^sub>1 o\<^sub>2 v\<^sub>2 \<dots>\<close> of binary operators, given by the list of the pairs
  \<open>(o\<^sub>i, v\<^sub>i)\<close>: \<open>infix_chain\<close> is what follows \<open>v\<^sub>0\<close> in the input. \<open>left_chain\<close> is
  what follows \<open>v\<^sub>0\<close> in the postfix form of the chain grouped left-to-right,
  \<open>v\<^sub>1 o\<^sub>1 v\<^sub>2 o\<^sub>2 \<dots>\<close>, and \<open>right_chain\<close> in that of the chain grouped right-to-left,
  \<open>v\<^sub>1 v\<^sub>2 \<dots> o\<^sub>2 o\<^sub>1\<close>.
\<close>

definition infix_chain :: "(char \<times> char) list \<Rightarrow> string" where
  "infix_chain ovs = concat (map (\<lambda>(opr, v). [opr, v]) ovs)"

definition left_chain :: "(char \<times> char) list \<Rightarrow> string" where
  "left_chain ovs = concat (map (\<lambda>(opr, v). [v, opr]) ovs)"

definition right_chain :: "(char \<times> char) list \<Rightarrow> string" where
  "right_chain ovs = map snd ovs @ rev (map fst ovs)"

section \<open>Evaluation on concrete inputs\<close>

lemmas parse_eval =
  parse_def parse_primary.simps parse_expr.simps parse_expr_loop.simps
  next_char_def peek_next_char_def emit_def expect_def isalpha_def operator_info_def
  assignment_op_def additive_op_def multiplicative_op_def NUL_def MAX_OUTPUT_def Let_def

section \<open>Basic facts about the primitives\<close>

lemma not_isalpha_special:
  "\<not> isalpha NUL" "\<not> isalpha (CHR ''~'')" "\<not> isalpha (CHR ''('')" "\<not> isalpha (CHR '')'')"
  "\<not> isalpha (CHR ''='')" "\<not> isalpha (CHR ''+'')" "\<not> isalpha (CHR ''-'')"
  "\<not> isalpha (CHR ''*'')" "\<not> isalpha (CHR ''/'')"
  by (simp_all add: isalpha_def NUL_def)

lemma isalpha_not_special:
  assumes "isalpha c"
  shows "c \<noteq> NUL" "c \<noteq> CHR ''~''" "c \<noteq> CHR ''(''" "c \<noteq> CHR '')''" "operator_info c = None"
  using assms not_isalpha_special by (auto simp: operator_info_def)

lemma next_char_Cons:
  "c \<noteq> NUL \<Longrightarrow> next_char \<lparr>input = c # cs, output' = out, output_end = cap\<rparr>
     = (c, \<lparr>input = cs, output' = out, output_end = cap\<rparr>)"
  by (simp add: next_char_def peek_next_char_def)

lemma parse_primary_variable:
  assumes "isalpha v"
  shows "parse_primary \<lparr>input = v # cs, output' = out, output_end = cap\<rparr> =
     (if length out = cap then Inl OutputOverflow
      else Inr \<lparr>input = cs, output' = out @ [v], output_end = cap\<rparr>)"
  using isalpha_not_special[OF assms] assms
  by (subst parse_primary.simps) (simp add: next_char_Cons emit_def)

lemma parse_primary_unary:
  "parse_primary \<lparr>input = CHR ''~'' # cs, output' = out, output_end = cap\<rparr> =
     (case parse_primary \<lparr>input = cs, output' = out, output_end = cap\<rparr> of
        Inl e \<Rightarrow> Inl e | Inr p2 \<Rightarrow> emit p2 (CHR ''~''))"
  by (subst parse_primary.simps) (simp add: next_char_Cons NUL_def)

lemma next_char_consumes:
  assumes "next_char p = (ch, p1)" "ch \<noteq> NUL"
  shows "input p = ch # input p1" "output' p1 = output' p" "output_end p1 = output_end p"
  using assms
  by (auto simp: next_char_def peek_next_char_def Let_def split: if_splits list.splits)

lemma emit_appends:
  assumes "emit p ch = Inr p'"
  shows "input p' = input p" "output' p' = output' p @ [ch]" "output_end p' = output_end p"
    "length (output' p) \<noteq> output_end p"
  using assms by (auto simp: emit_def split: if_splits)

lemma expect_consumes:
  assumes "expect p c = Inr p'" "c \<noteq> NUL"
  shows "input p = c # input p'" "output' p' = output' p" "output_end p' = output_end p"
  using assms next_char_consumes[of p c p']
  by (auto simp: expect_def split: prod.splits if_splits)

lemma expect_NUL: "expect p NUL = Inr p' \<Longrightarrow> p' = p \<and> peek_next_char p = NUL"
  by (auto simp: expect_def next_char_def Let_def split: if_splits)

lemma c_string_consumed:
  "NUL \<notin> set cs \<Longrightarrow> peek_next_char p = NUL \<Longrightarrow> c_string (cs @ input p) = cs"
  by (auto simp: c_string_def peek_next_char_def takeWhile_append split: list.splits)

section \<open>Symbolic evaluation steps\<close>

lemma parse_primary_nested_unary:
  assumes "isalpha v" "length out \<le> cap"
  shows "parse_primary \<lparr>input = replicate n (CHR ''~'') @ v # cs, output' = out, output_end = cap\<rparr> =
     (if length out + n < cap
      then Inr \<lparr>input = cs, output' = out @ v # replicate n (CHR ''~''), output_end = cap\<rparr>
      else Inl OutputOverflow)"
proof (induction n)
  case 0
  show ?case using parse_primary_variable[OF assms(1), of cs out cap] assms(2)
    by simp
next
  case (Suc n)
  have "parse_primary \<lparr>input = replicate (Suc n) (CHR ''~'') @ v # cs, output' = out, output_end = cap\<rparr>
    = (case parse_primary \<lparr>input = replicate n (CHR ''~'') @ v # cs, output' = out, output_end = cap\<rparr> of
        Inl e \<Rightarrow> Inl e | Inr p2 \<Rightarrow> emit p2 (CHR ''~''))"
    by (simp add: parse_primary_unary)
  also have "\<dots> = (if length out + Suc n < cap
      then Inr \<lparr>input = cs, output' = out @ v # replicate (Suc n) (CHR ''~''), output_end = cap\<rparr>
      else Inl OutputOverflow)"
    using assms(2) by (simp add: Suc emit_def replicate_append_same)
  finally show ?case .
qed

lemma parse_expr_loop_at_end:
  "parse_expr_loop \<lparr>input = [], output' = out, output_end = cap\<rparr> prec
     = Inr \<lparr>input = [], output' = out, output_end = cap\<rparr>"
  by (subst parse_expr_loop.simps) (simp add: peek_next_char_def operator_info_def NUL_def)

lemma parse_expr_loop_operator:
  assumes "operator_info ch = Some opi" "prec < precedence opi"
  shows "parse_expr_loop \<lparr>input = ch # cs, output' = out, output_end = cap\<rparr> prec =
     (case parse_expr \<lparr>input = cs, output' = out, output_end = cap\<rparr>
             (precedence opi - (if right_associative opi then 1 else 0)) of
        Inl e \<Rightarrow> Inl e
      | Inr p2 \<Rightarrow> (case emit p2 ch of Inl e \<Rightarrow> Inl e | Inr p3 \<Rightarrow> parse_expr_loop p3 prec))"
  using assms operator_info_not_NUL[OF assms(1)]
  by (subst parse_expr_loop.simps) (simp add: peek_next_char_def next_char_Cons)

lemma operator_info_positive: "operator_info ch = Some opi \<Longrightarrow> 0 < precedence opi"
  by (auto simp: operator_info_def assignment_op_def additive_op_def multiplicative_op_def
      split: if_splits)

lemma parse_nested_unary:
  assumes "isalpha v" "n \<le> 1022"
  shows "parse (replicate n (CHR ''~'') @ [v]) = Inr (v # replicate n (CHR ''~'') @ [NUL])"
  using assms
  by (simp add: parse_def parse_expr.simps parse_primary_nested_unary parse_expr_loop_at_end
      MAX_OUTPUT_def expect_def next_char_def peek_next_char_def emit_def)

lemma parse_unary_binds_tighter:
  assumes "isalpha a" "isalpha b" "operator_info ch = Some opi"
  shows "parse [CHR ''~'', a, ch, b] = Inr [a, CHR ''~'', b, ch, NUL]"
    "parse [a, ch, CHR ''~'', b] = Inr [a, b, CHR ''~'', ch, NUL]"
  using assms operator_info_positive[OF assms(3)]
  by (simp_all add: parse_def parse_expr.simps parse_primary_unary parse_primary_variable
      parse_expr_loop_operator parse_expr_loop_at_end
      MAX_OUTPUT_def expect_def next_char_def peek_next_char_def emit_def)

section \<open>Inversion of successful calls\<close>

lemma parse_primary_Inr_cases:
  assumes "parse_primary p = Inr p'"
  obtains (unary) p1 p2 where "next_char p = (CHR ''~'', p1)" "parse_primary p1 = Inr p2"
      "emit p2 (CHR ''~'') = Inr p'"
  | (group) p1 p2 where "next_char p = (CHR ''('', p1)" "parse_expr p1 0 = Inr p2"
      "expect p2 (CHR '')'') = Inr p'"
  | (variable) ch p1 where "next_char p = (ch, p1)" "ch \<noteq> CHR ''~''" "ch \<noteq> CHR ''(''"
      "isalpha ch" "emit p1 ch = Inr p'"
proof -
  obtain ch p1 where nc: "next_char p = (ch, p1)" by (cases "next_char p")
  from assms nc show ?thesis
    by (subst (asm) parse_primary.simps)
       (auto split: if_splits sum.splits intro: unary group variable)
qed

lemma parse_expr_Inr_cases:
  assumes "parse_expr p prec = Inr p'"
  obtains p1 where "parse_primary p = Inr p1" "parse_expr_loop p1 prec = Inr p'"
  using assms by (subst (asm) parse_expr.simps) (auto split: sum.splits)

lemma parse_expr_loop_Inr_cases:
  assumes "parse_expr_loop p prec = Inr p'"
  obtains (stop) "p' = p" "operator_info (peek_next_char p) = None"
  | (low) opi where "p' = p" "operator_info (peek_next_char p) = Some opi" "precedence opi \<le> prec"
  | (step) opi ch p1 p2 p3 where "operator_info (peek_next_char p) = Some opi"
      "\<not> precedence opi \<le> prec" "next_char p = (ch, p1)"
      "parse_expr p1 (precedence opi - (if right_associative opi then 1 else 0)) = Inr p2"
      "emit p2 (peek_next_char p) = Inr p3" "parse_expr_loop p3 prec = Inr p'"
proof -
  obtain ch p1 where nc: "next_char p = (ch, p1)" by (cases "next_char p")
  from assms nc show ?thesis
    by (subst (asm) parse_expr_loop.simps)
       (auto simp: Let_def split: if_splits sum.splits option.splits intro: stop low step)
qed

lemma parse_Inr_cases:
  assumes "parse inp = Inr out"
  obtains p1 p3 where
    "parse_expr \<lparr>input = inp, output' = [], output_end = MAX_OUTPUT\<rparr> 0 = Inr p1"
    "peek_next_char p1 = NUL" "emit p1 NUL = Inr p3" "out = output' p3"
  using assms
  by (auto simp: parse_def split: sum.splits dest!: expect_NUL)

section \<open>What a successful call consumes and emits\<close>

lemma consumed_emitted_refl: "consumed_emitted p p [] []"
  by (simp add: consumed_emitted_def)

lemma consumed_emitted_trans:
  "consumed_emitted p p1 cs es \<Longrightarrow> consumed_emitted p1 p2 cs' es'
     \<Longrightarrow> consumed_emitted p p2 (cs @ cs') (es @ es')"
  by (auto simp: consumed_emitted_def)

lemma consume_then_emit:
  assumes nc: "next_char p = (ch, p1)" and ch: "ch \<noteq> NUL" "\<not> is_paren ch"
    and mid: "consumed_emitted p1 p2 cs es" and em: "emit p2 ch = Inr p3"
  shows "consumed_emitted p p3 (ch # cs) (es @ [ch])"
  using next_char_consumes[OF nc ch(1)] emit_appends[OF em] mid ch
  by (auto simp: consumed_emitted_def)

lemma successful_call_frame:
  "\<forall>p'. parse_primary p = Inr p' \<longrightarrow> (\<exists>cs es. cs \<noteq> [] \<and> consumed_emitted p p' cs es)"
  "\<forall>p'. parse_expr q f = Inr p' \<longrightarrow> (\<exists>cs es. cs \<noteq> [] \<and> consumed_emitted q p' cs es)"
  "\<forall>p'. parse_expr_loop r g = Inr p' \<longrightarrow> (\<exists>cs es. consumed_emitted r p' cs es)"
proof (induct p and q f and r g rule: parse_primary_parse_expr_parse_expr_loop.induct)
  case (1 p)
  show ?case
  proof (intro allI impI)
    fix p' assume res: "parse_primary p = Inr p'"
    from res show "\<exists>cs es. cs \<noteq> [] \<and> consumed_emitted p p' cs es"
    proof (cases rule: parse_primary_Inr_cases)
      case (unary p1 p2)
      from 1(1)[OF unary(1)[symmetric] refl] unary(2)
      obtain cs es where "consumed_emitted p1 p2 cs es" by blast
      from consume_then_emit[OF unary(1) _ _ this unary(3)]
      have "consumed_emitted p p' (CHR ''~'' # cs) (es @ [CHR ''~''])"
        by (simp add: NUL_def is_paren_def)
      then show ?thesis by blast
    next
      case (group p1 p2)
      from 1(2)[OF group(1)[symmetric] _ refl] group(2)
      obtain cs es where mid: "consumed_emitted p1 p2 cs es" by auto
      have "consumed_emitted p p' (CHR ''('' # cs @ [CHR '')'']) es"
        using next_char_consumes[OF group(1)] expect_consumes[OF group(3)] mid
        by (auto simp: consumed_emitted_def NUL_def is_paren_def)
      then show ?thesis by blast
    next
      case (variable ch p1)
      have ch: "ch \<noteq> NUL" "\<not> is_paren ch"
        using isalpha_not_special[OF variable(4)] by (auto simp: is_paren_def)
      from consume_then_emit[OF variable(1) ch consumed_emitted_refl variable(5)]
      show ?thesis by auto
    qed
  qed
next
  case (2 p prec)
  show ?case
  proof (intro allI impI)
    fix p' assume res: "parse_expr p prec = Inr p'"
    from res obtain p1 where a: "parse_primary p = Inr p1" and b: "parse_expr_loop p1 prec = Inr p'"
      by (rule parse_expr_Inr_cases)
    from 2(1) a obtain cs es where c: "cs \<noteq> []" "consumed_emitted p p1 cs es" by blast
    from 2(2)[OF a] b obtain cs' es' where d: "consumed_emitted p1 p' cs' es'" by blast
    from consumed_emitted_trans[OF c(2) d] c(1)
    show "\<exists>cs es. cs \<noteq> [] \<and> consumed_emitted p p' cs es" by blast
  qed
next
  case (3 p prec)
  show ?case
  proof (intro allI impI)
    fix p' assume res: "parse_expr_loop p prec = Inr p'"
    from res show "\<exists>cs es. consumed_emitted p p' cs es"
    proof (cases rule: parse_expr_loop_Inr_cases)
      case stop
      then show ?thesis using consumed_emitted_refl by blast
    next
      case (low opi)
      then show ?thesis using consumed_emitted_refl by blast
    next
      case (step opi ch p1 p2 p3)
      have chp: "ch = peek_next_char p" using next_char_fst[OF step(3)] .
      have ch: "ch \<noteq> NUL" "\<not> is_paren ch"
        using step(1) chp operator_info_not_NUL[of ch opi]
        by (auto simp: is_paren_def operator_info_def split: if_splits)
      from 3(1)[OF refl step(1) step(2) step(3)[symmetric]] step(4)
      obtain cs es where mid: "consumed_emitted p1 p2 cs es" by blast
      from 3(2)[OF refl step(1) step(2) step(3)[symmetric] step(4) step(5)] step(6)
      obtain cs' es' where rest: "consumed_emitted p3 p' cs' es'" by blast
      from consume_then_emit[OF step(3) ch mid] step(5) chp
      have "consumed_emitted p p3 (ch # cs) (es @ [ch])" by simp
      from consumed_emitted_trans[OF this rest] show ?thesis by blast
    qed
  qed
qed

section \<open>The call tree and the origin of a failure\<close>

lemma parse_primary_input_less:
  "parse_primary p = Inr p' \<Longrightarrow> length (input p') < length (input p)"
  using successful_call_frame(1)[of p] by (auto simp: consumed_emitted_def)

lemma parse_expr_input_less:
  "parse_expr p prec = Inr p' \<Longrightarrow> length (input p') < length (input p)"
  using successful_call_frame(2)[of p prec] by (auto simp: consumed_emitted_def)

lemma parse_expr_loop_input_le:
  "parse_expr_loop p prec = Inr p' \<Longrightarrow> length (input p') \<le> length (input p)"
  using successful_call_frame(3)[of p prec] by (auto simp: consumed_emitted_def)

lemma subcall_measure: "subcall c c' \<Longrightarrow> call_measure c' < call_measure c"
proof (induction rule: subcall.induct)
  case (unary_operand p p1)
  then show ?case using next_char_input_less[of p "CHR ''~''" p1] by (simp add: NUL_def)
next
  case (group_body p p1)
  then show ?case using next_char_input_less[of p "CHR ''(''" p1] by (simp add: NUL_def)
next
  case (first_primary p prec)
  show ?case by simp
next
  case (enter_loop p p1 prec)
  then show ?case using parse_primary_input_less[of p p1] by simp
next
  case (right_operand p opi prec ch p1)
  then have "ch \<noteq> NUL" using next_char_fst[of p ch p1] operator_info_not_NUL[of ch opi] by simp
  then show ?case using next_char_input_less[of p ch p1] right_operand by simp
next
  case (next_iteration p opi prec ch p1 p2 p3)
  then have "ch \<noteq> NUL" using next_char_fst[of p ch p1] operator_info_not_NUL[of ch opi] by simp
  then have "length (input p1) < length (input p)"
    using next_char_input_less[of p ch p1] next_iteration by simp
  moreover have "length (input p2) < length (input p1)"
    using next_iteration parse_expr_input_less by blast
  moreover have "input p3 = input p2" using next_iteration emit_input by blast
  ultimately show ?case by simp
qed

lemma subcall_propagates: "subcall c c' \<Longrightarrow> run c' = Inl e \<Longrightarrow> run c = Inl e"
proof (induction rule: subcall.induct)
  case (unary_operand p p1)
  then show ?case by (subst run.simps, subst parse_primary.simps) simp
next
  case (group_body p p1)
  then show ?case by (subst run.simps, subst parse_primary.simps) simp
next
  case (first_primary p prec)
  then show ?case by (subst run.simps, subst parse_expr.simps) simp
next
  case (enter_loop p p1 prec)
  then show ?case by (subst run.simps, subst parse_expr.simps) simp
next
  case (right_operand p opi prec ch p1)
  then show ?case by (subst run.simps, subst parse_expr_loop.simps) simp
next
  case (next_iteration p opi prec ch p1 p2 p3)
  then show ?case by (subst run.simps, subst parse_expr_loop.simps) simp
qed

lemma raises_run: "raises c e \<Longrightarrow> run c = Inl e"
proof (induction rule: raises.induct)
  case (unexpected p ch p1)
  then show ?case by (subst run.simps, subst parse_primary.simps) simp
next
  case (variable_overflow p ch p1 e)
  then show ?case by (subst run.simps, subst parse_primary.simps) simp
next
  case (unary_overflow p p1 p2 e)
  then show ?case by (subst run.simps, subst parse_primary.simps) simp
next
  case (group_mismatch p p1 p2 e)
  then show ?case by (subst run.simps, subst parse_primary.simps) simp
next
  case (operator_overflow p opi prec ch p1 p2 e)
  then show ?case by (subst run.simps, subst parse_expr_loop.simps) simp
qed

lemma failure_step: "run c = Inl e \<Longrightarrow> raises c e \<or> (\<exists>c'. subcall c c' \<and> run c' = Inl e)"
proof (cases c)
  case (Primary p)
  assume "run c = Inl e"
  obtain ch p1 where nc: "next_char p = (ch, p1)" by (cases "next_char p")
  from \<open>run c = Inl e\<close> Primary nc show ?thesis
    apply simp
    apply (subst (asm) parse_primary.simps)
    apply (auto split: if_splits sum.splits intro: raises.intros subcall.intros)
    done
next
  case (Expr p prec)
  assume "run c = Inl e"
  with Expr show ?thesis
    apply simp
    apply (subst (asm) parse_expr.simps)
    apply (auto split: if_splits sum.splits intro: raises.intros subcall.intros)
    done
next
  case (Loop p prec)
  assume "run c = Inl e"
  with Loop have fail: "parse_expr_loop p prec = Inl e" by simp
  obtain ch p1 where nc: "next_char p = (ch, p1)" by (cases "next_char p")
  show ?thesis
  proof (cases "operator_info (peek_next_char p)")
    case None
    with fail show ?thesis by (subst (asm) parse_expr_loop.simps) simp
  next
    case (Some opi)
    show ?thesis
    proof (cases "prec \<ge> precedence opi")
      case True
      with fail Some show ?thesis by (subst (asm) parse_expr_loop.simps) simp
    next
      case False
      let ?f = "precedence opi - (if right_associative opi then 1 else 0)"
      from fail Some False nc have body:
        "(case parse_expr p1 ?f of Inl e \<Rightarrow> Inl e
          | Inr p2 \<Rightarrow> (case emit p2 (peek_next_char p) of Inl e \<Rightarrow> Inl e
                       | Inr p3 \<Rightarrow> parse_expr_loop p3 prec)) = Inl e"
        by (subst (asm) parse_expr_loop.simps) simp
      show ?thesis
      proof (cases "parse_expr p1 ?f")
        case (Inl e')
        with body have "e' = e" by simp
        with Inl have "run (Expr p1 ?f) = Inl e" by simp
        moreover have "subcall (Loop p prec) (Expr p1 ?f)"
          using Some False nc by (rule right_operand)
        ultimately show ?thesis using Loop by blast
      next
        case (Inr p2)
        show ?thesis
        proof (cases "emit p2 (peek_next_char p)")
          case (Inl e')
          with body Inr have "e' = e" by simp
          with Inl have "raises (Loop p prec) e"
            using operator_overflow[OF Some False nc Inr] by simp
          then show ?thesis using Loop by blast
        next
          case em: (Inr p3)
          with body Inr have "run (Loop p3 prec) = Inl e" by simp
          moreover have "subcall (Loop p prec) (Loop p3 prec)"
            using Some False nc Inr em by (rule next_iteration)
          ultimately show ?thesis using Loop by blast
        qed
      qed
    qed
  qed
qed

lemma reach_propagates: "subcall\<^sup>*\<^sup>* c c' \<Longrightarrow> run c' = Inl e \<Longrightarrow> run c = Inl e"
  by (induction rule: converse_rtranclp_induct) (auto dest: subcall_propagates)

lemma failure_origin_exists:
  "run c = Inl e \<Longrightarrow> \<exists>c'. subcall\<^sup>*\<^sup>* c c' \<and> raises c' e"
proof (induction "call_measure c" arbitrary: c rule: less_induct)
  case less
  from failure_step[OF less.prems] show ?case
  proof
    assume "raises c e"
    then show ?thesis by blast
  next
    assume "\<exists>c'. subcall c c' \<and> run c' = Inl e"
    then obtain c1 where sc: "subcall c c1" and r: "run c1 = Inl e" by blast
    from less.hyps[OF subcall_measure[OF sc] r] obtain c' where
      "subcall\<^sup>*\<^sup>* c1 c'" "raises c' e" by blast
    with sc show ?thesis by (meson converse_rtranclp_into_rtranclp)
  qed
qed

lemma failure_origin: "run c = Inl e \<longleftrightarrow> (\<exists>c'. subcall\<^sup>*\<^sup>* c c' \<and> raises c' e)"
  using failure_origin_exists reach_propagates raises_run by blast

lemma emit_Inl: "emit p ch = Inl e \<Longrightarrow> e = OutputOverflow"
  by (auto simp: emit_def split: if_splits)

lemma expect_Inl:
  "expect p c = Inl e \<longleftrightarrow> e = TokenMismatch c (peek_next_char p) \<and> peek_next_char p \<noteq> c"
  by (auto simp: expect_def next_char_def Let_def)

lemma parse_Inl_cases:
  assumes "parse inp = Inl e"
  obtains (inner) "parse_expr (initial inp) 0 = Inl e"
  | (trailing) p1 where "parse_expr (initial inp) 0 = Inr p1" "expect p1 NUL = Inl e"
  | (sentinel) p1 where "parse_expr (initial inp) 0 = Inr p1" "e = OutputOverflow"
  using assms by (auto simp: parse_def split: sum.splits dest: emit_Inl)

lemma parse_inner_failure: "parse_expr (initial inp) 0 = Inl e \<Longrightarrow> parse inp = Inl e"
  by (simp add: parse_def)

lemma raises_unexpected:
  "raises c (UnexpectedToken x) \<longleftrightarrow>
     (\<exists>p. c = Primary p \<and> peek_next_char p = x \<and> \<not> isalpha x \<and> x \<noteq> CHR ''~'' \<and> x \<noteq> CHR ''('')"
proof
  assume "raises c (UnexpectedToken x)"
  then show "\<exists>p. c = Primary p \<and> peek_next_char p = x \<and> \<not> isalpha x \<and> x \<noteq> CHR ''~'' \<and> x \<noteq> CHR ''(''"
    by (cases rule: raises.cases) (auto dest: emit_Inl next_char_fst simp: expect_Inl)
next
  assume "\<exists>p. c = Primary p \<and> peek_next_char p = x \<and> \<not> isalpha x \<and> x \<noteq> CHR ''~'' \<and> x \<noteq> CHR ''(''"
  then obtain p where c: "c = Primary p" and x: "peek_next_char p = x" "\<not> isalpha x"
    "x \<noteq> CHR ''~''" "x \<noteq> CHR ''(''" by blast
  obtain ch p1 where nc: "next_char p = (ch, p1)" by (cases "next_char p")
  with x have "ch = x" using next_char_fst by blast
  with nc x c show "raises c (UnexpectedToken x)" by (auto intro: raises.unexpected)
qed

lemma raises_mismatch:
  "raises c (TokenMismatch e g) \<longleftrightarrow>
     (\<exists>p p1 p2. c = Primary p \<and> next_char p = (CHR ''('', p1) \<and> parse_expr p1 0 = Inr p2
        \<and> g = peek_next_char p2 \<and> g \<noteq> CHR '')'' \<and> e = CHR '')'')"
proof
  assume "raises c (TokenMismatch e g)"
  then show "\<exists>p p1 p2. c = Primary p \<and> next_char p = (CHR ''('', p1) \<and> parse_expr p1 0 = Inr p2
        \<and> g = peek_next_char p2 \<and> g \<noteq> CHR '')'' \<and> e = CHR '')''"
    by (cases rule: raises.cases) (auto dest: emit_Inl simp: expect_Inl)
next
  assume "\<exists>p p1 p2. c = Primary p \<and> next_char p = (CHR ''('', p1) \<and> parse_expr p1 0 = Inr p2
        \<and> g = peek_next_char p2 \<and> g \<noteq> CHR '')'' \<and> e = CHR '')''"
  then show "raises c (TokenMismatch e g)"
    by (auto intro!: raises.group_mismatch simp: expect_Inl)
qed

lemma next_char_at_sentinel: "peek_next_char p = NUL \<Longrightarrow> next_char p = (NUL, p)"
  by (simp add: next_char_def)

lemma next_char_advances:
  "peek_next_char p \<noteq> NUL \<Longrightarrow>
     next_char p = (peek_next_char p, p\<lparr>input := tl (input p)\<rparr>) \<and> input p \<noteq> []"
  by (auto simp: next_char_def peek_next_char_def)

lemma subcall_of_primary:
  assumes "subcall (Primary p) c'"
  shows "peek_next_char p \<noteq> NUL \<and>
     (c' = Primary (p\<lparr>input := tl (input p)\<rparr>) \<or> c' = Expr (p\<lparr>input := tl (input p)\<rparr>) 0)"
  using assms
proof (cases rule: subcall.cases)
  case (unary_operand p1)
  then have "peek_next_char p = CHR ''~''" using next_char_fst by fastforce
  then have "peek_next_char p \<noteq> NUL" by (simp add: NUL_def)
  with next_char_advances[OF this] unary_operand show ?thesis by simp
next
  case (group_body p1)
  then have "peek_next_char p = CHR ''(''" using next_char_fst by fastforce
  then have "peek_next_char p \<noteq> NUL" by (simp add: NUL_def)
  with next_char_advances[OF this] group_body show ?thesis by simp
qed

lemma subcall_of_loop:
  assumes "subcall (Loop p prec) (Expr p1 prec')"
  shows "peek_next_char p \<noteq> NUL \<and> p1 = p\<lparr>input := tl (input p)\<rparr>"
  using assms
proof (cases rule: subcall.cases)
  case (right_operand opi ch)
  then have "peek_next_char p \<noteq> NUL" using operator_info_not_NUL by blast
  with next_char_advances[OF this] right_operand show ?thesis by simp
qed

section \<open>One step of each procedure\<close>

lemma parse_primary_unfold_unary:
  "next_char q = (CHR ''~'', q1) \<Longrightarrow>
     parse_primary q = (case parse_primary q1 of Inl e \<Rightarrow> Inl e | Inr p2 \<Rightarrow> emit p2 (CHR ''~''))"
  by (subst parse_primary.simps) simp

lemma parse_primary_unfold_group:
  "next_char q = (CHR ''('', q1) \<Longrightarrow>
     parse_primary q = (case parse_expr q1 0 of Inl e \<Rightarrow> Inl e | Inr p2 \<Rightarrow> expect p2 (CHR '')''))"
  by (subst parse_primary.simps) simp

lemma parse_primary_unfold_other:
  "next_char q = (ch, q1) \<Longrightarrow> ch \<noteq> CHR ''~'' \<Longrightarrow> ch \<noteq> CHR ''('' \<Longrightarrow>
     parse_primary q = (if isalpha ch then emit q1 ch else Inl (UnexpectedToken ch))"
  by (subst parse_primary.simps) simp

lemma parse_expr_loop_unfold_stop:
  "operator_info (peek_next_char q) = None
     \<or> (\<exists>opi. operator_info (peek_next_char q) = Some opi \<and> precedence opi \<le> prec) \<Longrightarrow>
   parse_expr_loop q prec = Inr q"
  by (subst parse_expr_loop.simps) auto

lemma parse_expr_loop_unfold_step:
  assumes "operator_info (peek_next_char q) = Some opi" "\<not> precedence opi \<le> prec"
    "next_char q = (ch, q1)"
  shows "parse_expr_loop q prec =
     (case parse_expr q1 (precedence opi - (if right_associative opi then 1 else 0)) of
        Inl e \<Rightarrow> Inl e
      | Inr p2 \<Rightarrow>
          (case emit p2 ch of
             Inl e \<Rightarrow> Inl e
           | Inr p3 \<Rightarrow> parse_expr_loop p3 prec))"
proof -
  have ch: "ch = peek_next_char q" using next_char_fst[OF assms(3)] .
  show ?thesis
    unfolding ch using assms(1,2) assms(3)[unfolded ch]
    by (subst parse_expr_loop.simps) simp
qed

section \<open>Running with another capacity\<close>

lemma peek_next_char_capacity [simp]:
  "peek_next_char (p\<lparr>output_end := n\<rparr>) = peek_next_char p"
  by (simp add: peek_next_char_def)

lemma next_char_capacity:
  "next_char p = (ch, p1) \<Longrightarrow> next_char (p\<lparr>output_end := n\<rparr>) = (ch, p1\<lparr>output_end := n\<rparr>)"
  by (auto simp: next_char_def Let_def split: if_splits)

lemma expect_capacity:
  "expect p c = Inr p' \<Longrightarrow> expect (p\<lparr>output_end := n\<rparr>) c = Inr (p'\<lparr>output_end := n\<rparr>)"
  by (auto simp: expect_def next_char_def Let_def split: if_splits)

lemma emit_capacity:
  "emit p ch = Inr p' \<Longrightarrow> length (output' p) \<le> n \<Longrightarrow>
     emit (p\<lparr>output_end := n\<rparr>) ch =
       (if length (output' p') \<le> n then Inr (p'\<lparr>output_end := n\<rparr>) else Inl OutputOverflow)"
  by (auto simp: emit_def split: if_splits)

lemma output_grows:
  "parse_primary p = Inr p' \<Longrightarrow> length (output' p) \<le> length (output' p')"
  "parse_expr p prec = Inr p' \<Longrightarrow> length (output' p) \<le> length (output' p')"
  "parse_expr_loop p prec = Inr p' \<Longrightarrow> length (output' p) \<le> length (output' p')"
  using successful_call_frame(1)[of p] successful_call_frame(2)[of p prec]
    successful_call_frame(3)[of p prec]
  by (auto simp: consumed_emitted_def)

lemma capacity_simulation:
  "\<forall>p'. length (output' p) \<le> n \<longrightarrow> parse_primary p = Inr p' \<longrightarrow>
      parse_primary (p\<lparr>output_end := n\<rparr>) = fits n p'"
  "\<forall>p'. length (output' q) \<le> n \<longrightarrow> parse_expr q f = Inr p' \<longrightarrow>
      parse_expr (q\<lparr>output_end := n\<rparr>) f = fits n p'"
  "\<forall>p'. length (output' r) \<le> n \<longrightarrow> parse_expr_loop r g = Inr p' \<longrightarrow>
      parse_expr_loop (r\<lparr>output_end := n\<rparr>) g = fits n p'"
proof (induct p and q f and r g rule: parse_primary_parse_expr_parse_expr_loop.induct)
  case (1 p)
  show ?case
  proof (intro allI impI)
    fix p' assume room: "length (output' p) \<le> n" and res: "parse_primary p = Inr p'"
    from res show "parse_primary (p\<lparr>output_end := n\<rparr>) = fits n p'"
    proof (cases rule: parse_primary_Inr_cases)
      case (unary p1 p2)
      have o1: "output' p1 = output' p" using next_char_consumes(2)[OF unary(1)] by (simp add: NUL_def)
      from 1(1)[OF unary(1)[symmetric] refl] unary(2) room o1
      have ih: "parse_primary (p1\<lparr>output_end := n\<rparr>) = fits n p2" by simp
      have "parse_primary (p\<lparr>output_end := n\<rparr>)
          = (case fits n p2 of Inl e \<Rightarrow> Inl e | Inr p2 \<Rightarrow> emit p2 (CHR ''~''))"
        using parse_primary_unfold_unary[OF next_char_capacity[OF unary(1)]] ih by simp
      also have "\<dots> = fits n p'"
        using emit_capacity[OF unary(3), of n] emit_appends(2)[OF unary(3)]
        by (auto simp: fits_def)
      finally show ?thesis .
    next
      case (group p1 p2)
      have o1: "output' p1 = output' p" using next_char_consumes(2)[OF group(1)] by (simp add: NUL_def)
      from 1(2)[OF group(1)[symmetric] _ refl] group(2) room o1
      have ih: "parse_expr (p1\<lparr>output_end := n\<rparr>) 0 = fits n p2" by simp
      have "parse_primary (p\<lparr>output_end := n\<rparr>)
          = (case fits n p2 of Inl e \<Rightarrow> Inl e | Inr p2 \<Rightarrow> expect p2 (CHR '')''))"
        using parse_primary_unfold_group[OF next_char_capacity[OF group(1)]] ih by simp
      also have "\<dots> = fits n p'"
        using expect_capacity[OF group(3), of n] expect_consumes(2)[OF group(3)]
        by (auto simp: fits_def NUL_def)
      finally show ?thesis .
    next
      case (variable ch p1)
      have o1: "output' p1 = output' p"
        using next_char_consumes(2)[OF variable(1)] isalpha_not_special(1)[OF variable(4)] by simp
      have "parse_primary (p\<lparr>output_end := n\<rparr>) = emit (p1\<lparr>output_end := n\<rparr>) ch"
        using parse_primary_unfold_other[OF next_char_capacity[OF variable(1)] variable(2,3)]
          variable(4) by simp
      also have "\<dots> = fits n p'"
        using emit_capacity[OF variable(5), of n] room o1 by (simp add: fits_def)
      finally show ?thesis .
    qed
  qed
next
  case (2 p prec)
  show ?case
  proof (intro allI impI)
    fix p' assume room: "length (output' p) \<le> n" and res: "parse_expr p prec = Inr p'"
    from res obtain p1 where a: "parse_primary p = Inr p1" and b: "parse_expr_loop p1 prec = Inr p'"
      by (rule parse_expr_Inr_cases)
    from 2(1) room a have ih1: "parse_primary (p\<lparr>output_end := n\<rparr>) = fits n p1" by blast
    have "parse_expr (p\<lparr>output_end := n\<rparr>) prec
        = (case fits n p1 of Inl e \<Rightarrow> Inl e | Inr p1 \<Rightarrow> parse_expr_loop p1 prec)"
      by (subst parse_expr.simps) (simp add: ih1)
    also have "\<dots> = fits n p'"
    proof (cases "length (output' p1) \<le> n")
      case True
      with 2(2)[OF a] b have "parse_expr_loop (p1\<lparr>output_end := n\<rparr>) prec = fits n p'" by blast
      with True show ?thesis by (simp add: fits_def)
    next
      case False
      with output_grows(3)[OF b] show ?thesis by (simp add: fits_def)
    qed
    finally show "parse_expr (p\<lparr>output_end := n\<rparr>) prec = fits n p'" .
  qed
next
  case (3 p prec)
  show ?case
  proof (intro allI impI)
    fix p' assume room: "length (output' p) \<le> n" and res: "parse_expr_loop p prec = Inr p'"
    from res show "parse_expr_loop (p\<lparr>output_end := n\<rparr>) prec = fits n p'"
    proof (cases rule: parse_expr_loop_Inr_cases)
      case stop
      then show ?thesis using room parse_expr_loop_unfold_stop[of "p\<lparr>output_end := n\<rparr>" prec]
        by (simp add: fits_def)
    next
      case (low opi)
      then show ?thesis using room parse_expr_loop_unfold_stop[of "p\<lparr>output_end := n\<rparr>" prec]
        by (simp add: fits_def)
    next
      case (step opi ch p1 p2 p3)
      let ?f = "precedence opi - (if right_associative opi then 1 else 0)"
      have chp: "ch = peek_next_char p" using next_char_fst[OF step(3)] .
      have "ch \<noteq> NUL" using step(1) chp operator_info_not_NUL[of ch opi] by simp
      then have o1: "output' p1 = output' p" using next_char_consumes(2)[OF step(3)] by simp
      from 3(1)[OF refl step(1) step(2) step(3)[symmetric]] step(4) room o1
      have ih1: "parse_expr (p1\<lparr>output_end := n\<rparr>) ?f = fits n p2" by simp
      have unfold: "parse_expr_loop (p\<lparr>output_end := n\<rparr>) prec
          = (case fits n p2 of Inl e \<Rightarrow> Inl e
             | Inr q2 \<Rightarrow> (case emit q2 ch of Inl e \<Rightarrow> Inl e
                           | Inr q3 \<Rightarrow> parse_expr_loop q3 prec))"
        using parse_expr_loop_unfold_step[of "p\<lparr>output_end := n\<rparr>" opi prec ch "p1\<lparr>output_end := n\<rparr>"]
          step(1,2) next_char_capacity[OF step(3)] ih1 by simp
      have em: "emit p2 ch = Inr p3" using step(5) chp by simp
      have o3: "output' p3 = output' p2 @ [ch]" using emit_appends(2)[OF em] .
      have grow: "length (output' p3) \<le> length (output' p')" using output_grows(3)[OF step(6)] .
      show ?thesis
      proof (cases "length (output' p3) \<le> n")
        case True
        then have fit2: "length (output' p2) \<le> n" using o3 by simp
        from 3(2)[OF refl step(1) step(2) step(3)[symmetric] step(4) step(5)] step(6) True
        have ih2: "parse_expr_loop (p3\<lparr>output_end := n\<rparr>) prec = fits n p'" by blast
        from unfold fit2 True emit_capacity[OF em fit2] ih2
        show ?thesis by (simp add: fits_def)
      next
        case False
        with grow have over: "\<not> length (output' p') \<le> n" by simp
        show ?thesis
        proof (cases "length (output' p2) \<le> n")
          case True
          from unfold True False emit_capacity[OF em True] over
          show ?thesis by (simp add: fits_def)
        next
          case nofit: False
          from unfold nofit over show ?thesis by (simp add: fits_def)
        qed
      qed
    qed
  qed
qed

lemma parse_is_parse_capacity: "parse inp = parse_capacity MAX_OUTPUT inp"
  by (simp add: parse_def parse_capacity_def)

lemma parse_capacity_Inr_cases:
  assumes "parse_capacity cap inp = Inr out"
  obtains p1 p3 where
    "parse_expr \<lparr>input = inp, output' = [], output_end = cap\<rparr> 0 = Inr p1"
    "expect p1 NUL = Inr p1" "emit p1 NUL = Inr p3" "out = output' p3"
proof -
  let ?p0 = "\<lparr>input = inp, output' = [], output_end = cap\<rparr>"
  from assms obtain p1 p2 p3 where run: "parse_expr ?p0 0 = Inr p1" and ex: "expect p1 NUL = Inr p2"
    and em: "emit p2 NUL = Inr p3" and out: "out = output' p3"
    by (auto simp: parse_capacity_def split: sum.splits)
  from expect_NUL[OF ex] have "p2 = p1" by simp
  with run ex em out show ?thesis by (auto intro: that)
qed

lemma parse_capacity_change:
  assumes "parse_capacity cap inp = Inr out"
  shows "parse_capacity n inp = (if length out \<le> n then Inr out else Inl OutputOverflow)"
proof -
  let ?p0 = "\<lparr>input = inp, output' = [], output_end = cap\<rparr>"
  from assms obtain p1 p3 where run: "parse_expr ?p0 0 = Inr p1" and ex: "expect p1 NUL = Inr p1"
    and em: "emit p1 NUL = Inr p3" and out: "out = output' p3"
    by (rule parse_capacity_Inr_cases)
  have len: "length out = length (output' p1) + 1" using emit_appends(2)[OF em] out by simp
  have "parse_expr (?p0\<lparr>output_end := n\<rparr>) 0 = fits n p1"
    using capacity_simulation(2)[of ?p0 n 0] run by simp
  then have sim: "parse_expr \<lparr>input = inp, output' = [], output_end = n\<rparr> 0 = fits n p1" by simp
  show ?thesis
  proof (cases "length (output' p1) \<le> n")
    case True
    with sim have "parse_expr \<lparr>input = inp, output' = [], output_end = n\<rparr> 0
        = Inr (p1\<lparr>output_end := n\<rparr>)" by (simp add: fits_def)
    with expect_capacity[OF ex, of n] emit_capacity[OF em True] out
    show ?thesis by (simp add: parse_capacity_def)
  next
    case False
    with sim len show ?thesis by (simp add: parse_capacity_def fits_def)
  qed
qed

lemma parse_capacity_nested_unary:
  assumes "isalpha v"
  shows "parse_capacity cap (replicate n (CHR ''~'') @ [v]) =
     (if n + 2 \<le> cap then Inr (v # replicate n (CHR ''~'') @ [NUL]) else Inl OutputOverflow)"
  using assms
  by (simp add: parse_capacity_def parse_expr.simps parse_primary_nested_unary
      parse_expr_loop_at_end expect_def next_char_def peek_next_char_def emit_def)

section \<open>The climber of the specification and the climber of the source\<close>

lemma next_char_operator:
  "operator_info (peek_next_char p) = Some opi \<Longrightarrow> next_char p = (peek_next_char p, consume p)"
  using next_char_advances[of p] operator_info_not_NUL[of "peek_next_char p" opi]
  by (simp add: consume_def)

lemma new_floor_eq:
  "precedence opi - (if right_associative opi then 1 else 0) = new_floor opi"
  by (simp add: new_floor_def)

lemma parse_expr_loop_operator_step:
  assumes "operator_info (peek_next_char p) = Some opi" "f < precedence opi"
  shows "parse_expr_loop p f =
     (case parse_expr (consume p) (new_floor opi) of
        Inl e \<Rightarrow> Inl e
      | Inr p2 \<Rightarrow>
          (case emit p2 (peek_next_char p) of
             Inl e \<Rightarrow> Inl e
           | Inr p3 \<Rightarrow> parse_expr_loop p3 f))"
  using parse_expr_loop_unfold_step[OF assms(1) _ next_char_operator[OF assms(1)], of f] assms(2)
  by (simp add: new_floor_eq)

lemma spec_climber_sound:
  "spec_climber p f r \<Longrightarrow> parse_expr p f = r"
  "spec_climber_loop q g s \<Longrightarrow> parse_expr_loop q g = s"
proof (induction rule: spec_climber_spec_climber_loop.inducts)
  case (primary_fails p e f)
  then show ?case by (subst parse_expr.simps) simp
next
  case (primary_then_loop p p1 f r)
  then show ?case by (subst parse_expr.simps) simp
next
  case (stop_not_operator p f)
  then show ?case by (simp add: parse_expr_loop_unfold_stop)
next
  case (stop_precedence p opi f)
  then show ?case by (simp add: parse_expr_loop_unfold_stop)
next
  case (operand_fails p opi f e)
  then show ?case by (simp add: parse_expr_loop_operator_step)
next
  case (operator_overflows p opi f p2 e)
  then show ?case by (simp add: parse_expr_loop_operator_step)
next
  case (operator_emitted p opi f p2 p3 r)
  then show ?case by (simp add: parse_expr_loop_operator_step)
qed

lemma spec_climber_complete:
  "parse_primary p = parse_primary p"
  "spec_climber q f (parse_expr q f)"
  "spec_climber_loop r g (parse_expr_loop r g)"
proof (induct p and q f and r g rule: parse_primary_parse_expr_parse_expr_loop.induct)
  case (1 p)
  show ?case by simp
next
  case (2 p prec)
  show ?case
  proof (cases "parse_primary p")
    case (Inl e)
    then have "parse_expr p prec = Inl e" by (subst parse_expr.simps) simp
    with Inl show ?thesis by (simp add: primary_fails)
  next
    case (Inr p1)
    then have "parse_expr p prec = parse_expr_loop p1 prec" by (subst parse_expr.simps) simp
    with Inr 2(2)[OF Inr] show ?thesis by (simp add: primary_then_loop)
  qed
next
  case (3 p prec)
  show ?case
  proof (cases "operator_info (peek_next_char p)")
    case None
    then show ?thesis by (simp add: parse_expr_loop_unfold_stop stop_not_operator)
  next
    case (Some opi)
    show ?thesis
    proof (cases "precedence opi \<le> prec")
      case True
      with Some have "parse_expr_loop p prec = Inr p" by (simp add: parse_expr_loop_unfold_stop)
      with Some True show ?thesis by (simp add: stop_precedence)
    next
      case False
      then have above: "prec < precedence opi" by simp
      note nc = next_char_operator[OF Some]
      note step = parse_expr_loop_operator_step[OF Some above]
      from 3(1)[OF refl Some False nc[symmetric]]
      have operand: "spec_climber (consume p) (new_floor opi) (parse_expr (consume p) (new_floor opi))"
        by (simp add: new_floor_eq)
      show ?thesis
      proof (cases "parse_expr (consume p) (new_floor opi)")
        case (Inl e)
        with step have "parse_expr_loop p prec = Inl e" by simp
        with operand Inl Some above show ?thesis by (simp add: operand_fails)
      next
        case (Inr p2)
        show ?thesis
        proof (cases "emit p2 (peek_next_char p)")
          case (Inl e)
          with step Inr have "parse_expr_loop p prec = Inl e" by simp
          with operator_overflows[OF Some above _ Inl] operand Inr show ?thesis by simp
        next
          case em: (Inr p3)
          with step Inr have eq: "parse_expr_loop p prec = parse_expr_loop p3 prec" by simp
          from Inr have "parse_expr (consume p) (precedence opi - (if right_associative opi then 1 else 0)) = Inr p2"
            by (simp add: new_floor_eq)
          from 3(2)[OF refl Some False nc[symmetric] this em]
          have "spec_climber_loop p3 prec (parse_expr_loop p3 prec)" .
          with operator_emitted[OF Some above _ em] operand Inr eq show ?thesis by simp
        qed
      qed
    qed
  qed
qed

lemma consume_frame [simp]:
  "output' (consume p) = output' p" "output_end (consume p) = output_end p"
  by (simp_all add: consume_def)

section \<open>Two operators, symbolically\<close>

lemma parse_expr_loop_low_operator:
  assumes "operator_info ch = Some opi" "precedence opi \<le> prec"
  shows "parse_expr_loop \<lparr>input = ch # cs, output' = out, output_end = cap\<rparr> prec
     = Inr \<lparr>input = ch # cs, output' = out, output_end = cap\<rparr>"
  using assms by (intro parse_expr_loop_unfold_stop) (simp add: peek_next_char_def)

lemma parse_expr_loop_close:
  "parse_expr_loop \<lparr>input = CHR '')'' # cs, output' = out, output_end = cap\<rparr> prec
     = Inr \<lparr>input = CHR '')'' # cs, output' = out, output_end = cap\<rparr>"
  by (intro parse_expr_loop_unfold_stop) (simp add: peek_next_char_def operator_info_def)

lemma parse_primary_group:
  "parse_primary \<lparr>input = CHR ''('' # cs, output' = out, output_end = cap\<rparr> =
     (case parse_expr \<lparr>input = cs, output' = out, output_end = cap\<rparr> 0 of
        Inl e \<Rightarrow> Inl e | Inr p2 \<Rightarrow> expect p2 (CHR '')''))"
  by (subst parse_primary.simps) (simp add: next_char_Cons NUL_def)

lemmas symbolic_eval =
  parse_def parse_expr.simps parse_primary_unary parse_primary_variable parse_primary_group
  parse_expr_loop_operator parse_expr_loop_low_operator parse_expr_loop_at_end
  parse_expr_loop_close
  MAX_OUTPUT_def expect_def next_char_def peek_next_char_def emit_def

lemma operator_classes:
  assumes "operator_info ch = Some opi"
  shows "opi = assignment_op \<or> opi = additive_op \<or> opi = multiplicative_op"
  using assms by (auto simp: operator_info_def split: if_splits)

lemma parse_equal_precedence:
  assumes "isalpha a" "isalpha b" "isalpha c"
    and "operator_info o1 = Some d1" "operator_info o2 = Some d2"
    and "precedence d1 = precedence d2"
  shows "parse [a, o1, b, o2, c] =
     (if right_associative d1 then Inr [a, b, c, o2, o1, NUL] else Inr [a, b, o1, c, o2, NUL])"
  using assms operator_info_positive[OF assms(4)] operator_info_positive[OF assms(5)]
    operator_classes[OF assms(4)] operator_classes[OF assms(5)]
  by (auto simp: symbolic_eval assignment_op_def additive_op_def multiplicative_op_def)

lemma parse_higher_second:
  assumes "isalpha a" "isalpha b" "isalpha c"
    and "operator_info o1 = Some d1" "operator_info o2 = Some d2"
    and "precedence d1 < precedence d2"
  shows "parse [a, o1, b, o2, c] = Inr [a, b, c, o2, o1, NUL]"
  using assms operator_info_positive[OF assms(4)] operator_info_positive[OF assms(5)]
    operator_classes[OF assms(4)] operator_classes[OF assms(5)]
  by (auto simp: symbolic_eval assignment_op_def additive_op_def multiplicative_op_def)

lemma parse_higher_first:
  assumes "isalpha a" "isalpha b" "isalpha c"
    and "operator_info o1 = Some d1" "operator_info o2 = Some d2"
    and "precedence d2 < precedence d1"
  shows "parse [a, o1, b, o2, c] = Inr [a, b, o1, c, o2, NUL]"
  using assms operator_info_positive[OF assms(4)] operator_info_positive[OF assms(5)]
    operator_classes[OF assms(4)] operator_classes[OF assms(5)]
  by (auto simp: symbolic_eval assignment_op_def additive_op_def multiplicative_op_def)

lemma parse_group_first:
  assumes "isalpha a" "isalpha b" "isalpha c"
    and "operator_info o1 = Some d1" "operator_info o2 = Some d2"
  shows "parse [CHR ''('', a, o1, b, CHR '')'', o2, c] = Inr [a, b, o1, c, o2, NUL]"
  using assms operator_info_positive[OF assms(4)] operator_info_positive[OF assms(5)]
    operator_classes[OF assms(4)] operator_classes[OF assms(5)]
  by (auto simp: symbolic_eval assignment_op_def additive_op_def multiplicative_op_def NUL_def)

lemma parse_group_second:
  assumes "isalpha a" "isalpha b" "isalpha c"
    and "operator_info o1 = Some d1" "operator_info o2 = Some d2"
  shows "parse [a, o1, CHR ''('', b, o2, c, CHR '')''] = Inr [a, b, c, o2, o1, NUL]"
  using assms operator_info_positive[OF assms(4)] operator_info_positive[OF assms(5)]
    operator_classes[OF assms(4)] operator_classes[OF assms(5)]
  by (auto simp: symbolic_eval assignment_op_def additive_op_def multiplicative_op_def NUL_def)

section \<open>Chains of operators\<close>

lemma parse_expr_loop_left_chain:
  assumes ops: "\<forall>(opr, v) \<in> set ovs. isalpha v \<and>
        (\<exists>d. operator_info opr = Some d \<and> precedence d = k \<and> \<not> right_associative d)"
    and floor: "prec < k"
    and room: "length out + 2 * length ovs \<le> cap"
  shows "parse_expr_loop \<lparr>input = infix_chain ovs, output' = out, output_end = cap\<rparr> prec
     = Inr \<lparr>input = [], output' = out @ left_chain ovs, output_end = cap\<rparr>"
  using ops room
proof (induction ovs arbitrary: out)
  case Nil
  show ?case by (simp add: infix_chain_def left_chain_def parse_expr_loop_at_end)
next
  case (Cons ov ovs)
  obtain opr v where ov: "ov = (opr, v)" by (cases ov)
  from Cons.prems(1) ov obtain d where v: "isalpha v" and d: "operator_info opr = Some d"
    "precedence d = k" "\<not> right_associative d" by auto
  have rest: "\<forall>(opr, v) \<in> set ovs. isalpha v \<and>
        (\<exists>d. operator_info opr = Some d \<and> precedence d = k \<and> \<not> right_associative d)"
    using Cons.prems(1) by simp
  have room': "length (out @ [v, opr]) + 2 * length ovs \<le> cap" using Cons.prems(2) by simp
  have inner: "parse_expr_loop \<lparr>input = infix_chain ovs, output' = out @ [v], output_end = cap\<rparr> k
      = Inr \<lparr>input = infix_chain ovs, output' = out @ [v], output_end = cap\<rparr>"
  proof (cases ovs)
    case Nil
    then show ?thesis by (simp add: infix_chain_def parse_expr_loop_at_end)
  next
    case (Cons ov' ovs')
    obtain opr' v' where ov': "ov' = (opr', v')" by (cases ov')
    with rest Cons obtain d' where "operator_info opr' = Some d'" "precedence d' = k" by auto
    then show ?thesis using Cons ov'
      by (simp add: infix_chain_def parse_expr_loop_low_operator)
  qed
  have "parse_expr_loop \<lparr>input = infix_chain (ov # ovs), output' = out, output_end = cap\<rparr> prec
      = parse_expr_loop \<lparr>input = infix_chain ovs, output' = out @ [v, opr], output_end = cap\<rparr> prec"
    using v d floor Cons.prems(2) inner
    by (simp add: ov infix_chain_def parse_expr_loop_operator parse_expr.simps
        parse_primary_variable emit_def)
  also have "\<dots> = Inr \<lparr>input = [], output' = (out @ [v, opr]) @ left_chain ovs, output_end = cap\<rparr>"
    using Cons.IH[OF rest room'] .
  finally show ?case by (simp add: ov left_chain_def)
qed

lemma parse_expr_loop_right_chain:
  assumes ops: "\<forall>(opr, v) \<in> set ovs. isalpha v \<and>
        (\<exists>d. operator_info opr = Some d \<and> precedence d = k \<and> right_associative d)"
    and floor: "prec < k"
    and room: "length out + 2 * length ovs \<le> cap"
  shows "parse_expr_loop \<lparr>input = infix_chain ovs, output' = out, output_end = cap\<rparr> prec
     = Inr \<lparr>input = [], output' = out @ right_chain ovs, output_end = cap\<rparr>"
  using ops floor room
proof (induction ovs arbitrary: out prec)
  case Nil
  show ?case by (simp add: infix_chain_def right_chain_def parse_expr_loop_at_end)
next
  case (Cons ov ovs)
  obtain opr v where ov: "ov = (opr, v)" by (cases ov)
  from Cons.prems(1) ov obtain d where v: "isalpha v" and d: "operator_info opr = Some d"
    "precedence d = k" "right_associative d" by auto
  have rest: "\<forall>(opr, v) \<in> set ovs. isalpha v \<and>
        (\<exists>d. operator_info opr = Some d \<and> precedence d = k \<and> right_associative d)"
    using Cons.prems(1) by simp
  have room': "length (out @ [v]) + 2 * length ovs \<le> cap" using Cons.prems(3) by simp
  have inner: "parse_expr_loop \<lparr>input = infix_chain ovs, output' = out @ [v], output_end = cap\<rparr> (k - 1)
      = Inr \<lparr>input = [], output' = (out @ [v]) @ right_chain ovs, output_end = cap\<rparr>"
    using Cons.IH[OF rest _ room', of "k - 1"] by simp
  have len: "length ((out @ [v]) @ right_chain ovs) < cap"
    using Cons.prems(3) by (simp add: right_chain_def)
  have "parse_expr_loop \<lparr>input = infix_chain (ov # ovs), output' = out, output_end = cap\<rparr> prec
      = Inr \<lparr>input = [], output' = (out @ [v]) @ right_chain ovs @ [opr], output_end = cap\<rparr>"
    using v d Cons.prems(2,3) inner len
    by (simp add: ov infix_chain_def parse_expr_loop_operator parse_expr.simps
        parse_primary_variable emit_def parse_expr_loop_at_end)
  then show ?case by (simp add: ov right_chain_def)
qed

lemma parse_chain:
  assumes a: "isalpha a"
    and run: "parse_expr_loop \<lparr>input = cs, output' = [a], output_end = MAX_OUTPUT\<rparr> 0
       = Inr \<lparr>input = [], output' = a # es, output_end = MAX_OUTPUT\<rparr>"
    and room: "length es + 2 \<le> MAX_OUTPUT"
  shows "parse (a # cs) = Inr (a # es @ [NUL])"
  using a run room
  by (simp add: parse_def parse_expr.simps parse_primary_variable MAX_OUTPUT_def
      expect_def next_char_def peek_next_char_def emit_def)

lemma length_left_chain [simp]: "length (left_chain ovs) = 2 * length ovs"
  by (induction ovs) (auto simp: left_chain_def)

lemma length_right_chain [simp]: "length (right_chain ovs) = 2 * length ovs"
  by (simp add: right_chain_def)

section \<open>The precedence climber\<close>

text \<open>
  Claim C1. For every call of the climber with a floor \<open>f\<close>, the climber of the source
  does what the climber of the specification does, and ends as it ends: it parses one
  primary expression and then loops; in the loop it peeks the next token without consuming
  it and stops when that token is not a binary operator or when its precedence is at most
  \<open>f\<close>; otherwise it consumes the operator, calls itself with the new floor (the
  operator's precedence, less one when the operator is right-associative, unchanged when it
  is left-associative), emits the operator and loops again. The operator is emitted after
  what the right operand emitted: the output of a successful iteration is the output so
  far, then what the right operand emitted, then the operator, then what the rest of the
  loop emitted.
\<close>

theorem precedence_climber:
  "(spec_climber p f r \<longleftrightarrow> parse_expr p f = r)
   \<and> (spec_climber_loop p f r \<longleftrightarrow> parse_expr_loop p f = r)
   \<and> (operator_info (peek_next_char q) = Some opi \<and> g < precedence opi
        \<and> parse_expr_loop q g = Inr q' \<longrightarrow>
        (\<exists>q2 es rest. parse_expr (consume q) (new_floor opi) = Inr q2
            \<and> output' q2 = output' q @ es
            \<and> output' q' = output' q @ es @ [peek_next_char q] @ rest))"
proof -
  have climber: "spec_climber p f r \<longleftrightarrow> parse_expr p f = r"
    using spec_climber_sound(1)[of p f r] spec_climber_complete(2)[of p f] by auto
  have loop: "spec_climber_loop p f r \<longleftrightarrow> parse_expr_loop p f = r"
    using spec_climber_sound(2)[of p f r] spec_climber_complete(3)[of p f] by auto
  have order: "\<exists>q2 es rest. parse_expr (consume q) (new_floor opi) = Inr q2
            \<and> output' q2 = output' q @ es
            \<and> output' q' = output' q @ es @ [peek_next_char q] @ rest"
    if op: "operator_info (peek_next_char q) = Some opi" and above: "g < precedence opi"
      and res: "parse_expr_loop q g = Inr q'"
  proof -
    from res parse_expr_loop_operator_step[OF op above]
    obtain q2 q3 where operand: "parse_expr (consume q) (new_floor opi) = Inr q2"
      and em: "emit q2 (peek_next_char q) = Inr q3" and rest: "parse_expr_loop q3 g = Inr q'"
      by (auto split: sum.splits)
    from successful_call_frame(2) operand obtain cs es where
      "consumed_emitted (consume q) q2 cs es" by blast
    then have a: "output' q2 = output' q @ es" by (simp add: consumed_emitted_def)
    from successful_call_frame(3) rest obtain cs' es' where
      "consumed_emitted q3 q' cs' es'" by blast
    then have "output' q' = output' q3 @ es'" by (simp add: consumed_emitted_def)
    with emit_appends(2)[OF em] a
    have "output' q' = output' q @ es @ [peek_next_char q] @ es'" by simp
    with operand a show ?thesis by blast
  qed
  from climber loop order show ?thesis by blast
qed

theorem precedence_climber_witness:
  "parse_expr (initial ''a+b'') 0 = Inr \<lparr>input = [], output' = ''ab+'', output_end = MAX_OUTPUT\<rparr>
   \<and> spec_climber (initial ''a+b'') 0
        (Inr \<lparr>input = [], output' = ''ab+'', output_end = MAX_OUTPUT\<rparr>)
   \<and> operator_info (peek_next_char \<lparr>input = ''+b'', output' = ''a'', output_end = MAX_OUTPUT\<rparr>)
        = Some additive_op
   \<and> 0 < precedence additive_op
   \<and> parse_expr_loop \<lparr>input = ''+b'', output' = ''a'', output_end = MAX_OUTPUT\<rparr> 0
        = Inr \<lparr>input = [], output' = ''ab+'', output_end = MAX_OUTPUT\<rparr>
   \<and> spec_climber_loop \<lparr>input = ''+b'', output' = ''a'', output_end = MAX_OUTPUT\<rparr> 0
        (Inr \<lparr>input = [], output' = ''ab+'', output_end = MAX_OUTPUT\<rparr>)
   \<and> (\<exists>q2 es rest.
        parse_expr (consume \<lparr>input = ''+b'', output' = ''a'', output_end = MAX_OUTPUT\<rparr>)
          (new_floor additive_op) = Inr q2
        \<and> output' q2 = ''a'' @ es
        \<and> ''ab+'' = ''a'' @ es @ [CHR ''+''] @ rest)"
proof -
  let ?q = "\<lparr>input = ''+b'', output' = ''a'', output_end = MAX_OUTPUT\<rparr>"
  let ?r = "\<lparr>input = [], output' = ''ab+'', output_end = MAX_OUTPUT\<rparr>"
  have h1: "parse_expr (initial ''a+b'') 0 = Inr ?r"
    by (simp add: parse_eval)
  have h2: "operator_info (peek_next_char ?q) = Some additive_op" "0 < precedence additive_op"
    by (simp_all add: peek_next_char_def operator_info_def additive_op_def)
  have h3: "parse_expr_loop ?q 0 = Inr ?r"
    by (simp add: parse_eval)
  have pk: "peek_next_char ?q = CHR ''+''"
    by (simp add: peek_next_char_def)
  from precedence_climber[of "initial ''a+b''" 0 "Inr ?r" ?q additive_op 0 ?r]
    precedence_climber[of ?q 0 "Inr ?r" ?q additive_op 0 ?r] h1 h2 h3 pk
  show ?thesis by simp
qed

section \<open>The operator table\<close>

text \<open>
  Claim C2. The operator table maps exactly the five symbols \<open>+ - * / =\<close> to a descriptor
  and answers "not an operator" (\<open>None\<close>, the NULL of the source) for every other
  character. \<open>=\<close> has precedence 1 and is right-associative, \<open>+\<close> and \<open>-\<close> have
  precedence 10 and are left-associative, \<open>*\<close> and \<open>/\<close> have precedence 20 and are
  left-associative. So every operator other than \<open>=\<close> has a precedence above that of
  \<open>=\<close>, and two operators of different precedence are more than one apart (the gap that
  the right-associative recursion with precedence minus one relies on).
\<close>

theorem operator_info_table:
  "dom operator_info = {CHR ''+'', CHR ''-'', CHR ''*'', CHR ''/'', CHR ''=''}
   \<and> (c \<notin> {CHR ''+'', CHR ''-'', CHR ''*'', CHR ''/'', CHR ''=''} \<longrightarrow> operator_info c = None)
   \<and> operator_info (CHR ''='') = Some \<lparr>precedence = 1, right_associative = True\<rparr>
   \<and> operator_info (CHR ''+'') = Some \<lparr>precedence = 10, right_associative = False\<rparr>
   \<and> operator_info (CHR ''-'') = Some \<lparr>precedence = 10, right_associative = False\<rparr>
   \<and> operator_info (CHR ''*'') = Some \<lparr>precedence = 20, right_associative = False\<rparr>
   \<and> operator_info (CHR ''/'') = Some \<lparr>precedence = 20, right_associative = False\<rparr>
   \<and> (\<forall>opi. operator_info c = Some opi \<and> c \<noteq> CHR ''='' \<longrightarrow> 1 < precedence opi)
   \<and> (\<forall>opi opi'. operator_info c = Some opi \<and> operator_info c' = Some opi'
          \<and> precedence opi < precedence opi' \<longrightarrow> precedence opi + 1 < precedence opi')"
proof -
  have d: "dom operator_info = {CHR ''+'', CHR ''-'', CHR ''*'', CHR ''/'', CHR ''=''}"
    by (auto simp: dom_def operator_info_def split: if_splits)
  have n: "c \<notin> {CHR ''+'', CHR ''-'', CHR ''*'', CHR ''/'', CHR ''=''} \<longrightarrow> operator_info c = None"
    by (simp add: operator_info_def)
  have v: "operator_info (CHR ''='') = Some \<lparr>precedence = 1, right_associative = True\<rparr>"
    "operator_info (CHR ''+'') = Some \<lparr>precedence = 10, right_associative = False\<rparr>"
    "operator_info (CHR ''-'') = Some \<lparr>precedence = 10, right_associative = False\<rparr>"
    "operator_info (CHR ''*'') = Some \<lparr>precedence = 20, right_associative = False\<rparr>"
    "operator_info (CHR ''/'') = Some \<lparr>precedence = 20, right_associative = False\<rparr>"
    by (simp_all add: operator_info_def assignment_op_def additive_op_def multiplicative_op_def)
  have l: "\<forall>opi. operator_info c = Some opi \<and> c \<noteq> CHR ''='' \<longrightarrow> 1 < precedence opi"
    by (auto simp: operator_info_def additive_op_def multiplicative_op_def split: if_splits)
  have g: "\<forall>opi opi'. operator_info c = Some opi \<and> operator_info c' = Some opi'
          \<and> precedence opi < precedence opi' \<longrightarrow> precedence opi + 1 < precedence opi'"
    by (auto simp: operator_info_def assignment_op_def additive_op_def multiplicative_op_def
        split: if_splits)
  from d n v l g show ?thesis by blast
qed

theorem operator_info_table_witness:
  "CHR ''a'' \<notin> {CHR ''+'', CHR ''-'', CHR ''*'', CHR ''/'', CHR ''=''}
   \<and> operator_info (CHR ''a'') = None
   \<and> operator_info (CHR ''+'') = Some additive_op \<and> CHR ''+'' \<noteq> CHR ''=''
   \<and> 1 < precedence additive_op
   \<and> operator_info (CHR ''*'') = Some multiplicative_op
   \<and> precedence additive_op < precedence multiplicative_op
   \<and> precedence additive_op + 1 < precedence multiplicative_op"
  using operator_info_table [of "CHR ''a''" "CHR ''*''"]
    operator_info_table [of "CHR ''+''" "CHR ''*''"]
  by (simp add: additive_op_def multiplicative_op_def)

section \<open>Associativity, precedence and grouping\<close>

text \<open>
  Claim C3. A chain of operators of equal precedence groups left-to-right when the
  operators are left-associative and right-to-left when they are right-associative,
  whatever the length of the chain (as long as the output and its NUL fit the buffer): the
  postfix form is \<open>v\<^sub>0 v\<^sub>1 o\<^sub>1 v\<^sub>2 o\<^sub>2 \<dots>\<close> in the first case and
  \<open>v\<^sub>0 v\<^sub>1 v\<^sub>2 \<dots> o\<^sub>2 o\<^sub>1\<close> in the second. On the test inputs: \<open>a+b+c\<close> gives \<open>ab+c+\<close>,
  and \<open>a=b=c\<close> gives \<open>abc==\<close> (each followed by the terminating NUL).
\<close>

theorem parse_associativity:
  "(isalpha a
      \<and> (\<forall>(opr, v) \<in> set ovs. isalpha v \<and>
            (\<exists>d. operator_info opr = Some d \<and> precedence d = k \<and> \<not> right_associative d))
      \<and> 2 * length ovs + 2 \<le> MAX_OUTPUT
      \<longrightarrow> parse (a # infix_chain ovs) = Inr (a # left_chain ovs @ [NUL]))
   \<and> (isalpha a
      \<and> (\<forall>(opr, v) \<in> set ovs. isalpha v \<and>
            (\<exists>d. operator_info opr = Some d \<and> precedence d = k \<and> right_associative d))
      \<and> 2 * length ovs + 2 \<le> MAX_OUTPUT
      \<longrightarrow> parse (a # infix_chain ovs) = Inr (a # right_chain ovs @ [NUL]))
   \<and> parse ''a+b+c'' = Inr (''ab+c+'' @ [NUL])
   \<and> parse ''a=b=c'' = Inr (''abc=='' @ [NUL])"
proof -
  have pos: "0 < k \<or> ovs = []"
    if "\<forall>(opr, v) \<in> set ovs. isalpha v \<and>
            (\<exists>d. operator_info opr = Some d \<and> precedence d = k \<and> r = right_associative d)" for r
  proof (cases ovs)
    case Nil
    then show ?thesis by simp
  next
    case (Cons ov ovs')
    obtain opr v where "ov = (opr, v)" by (cases ov)
    with that Cons obtain d where "operator_info opr = Some d" "precedence d = k" by auto
    then show ?thesis using operator_info_positive by blast
  qed
  have left: "parse (a # infix_chain ovs) = Inr (a # left_chain ovs @ [NUL])"
    if a: "isalpha a"
      and ops: "\<forall>(opr, v) \<in> set ovs. isalpha v \<and>
            (\<exists>d. operator_info opr = Some d \<and> precedence d = k \<and> \<not> right_associative d)"
      and room: "2 * length ovs + 2 \<le> MAX_OUTPUT"
  proof (cases "ovs = []")
    case True
    then show ?thesis
      using parse_chain[OF a, of "[]" "[]"]
      by (simp add: infix_chain_def left_chain_def parse_expr_loop_at_end MAX_OUTPUT_def)
  next
    case False
    with pos[of False] ops have k: "0 < k" by auto
    from parse_expr_loop_left_chain[OF ops k, of "[a]" MAX_OUTPUT] room
    have "parse_expr_loop \<lparr>input = infix_chain ovs, output' = [a], output_end = MAX_OUTPUT\<rparr> 0
       = Inr \<lparr>input = [], output' = a # left_chain ovs, output_end = MAX_OUTPUT\<rparr>" by simp
    from parse_chain[OF a this] room show ?thesis by simp
  qed
  have right: "parse (a # infix_chain ovs) = Inr (a # right_chain ovs @ [NUL])"
    if a: "isalpha a"
      and ops: "\<forall>(opr, v) \<in> set ovs. isalpha v \<and>
            (\<exists>d. operator_info opr = Some d \<and> precedence d = k \<and> right_associative d)"
      and room: "2 * length ovs + 2 \<le> MAX_OUTPUT"
  proof (cases "ovs = []")
    case True
    then show ?thesis
      using parse_chain[OF a, of "[]" "[]"]
      by (simp add: infix_chain_def right_chain_def parse_expr_loop_at_end MAX_OUTPUT_def)
  next
    case False
    with pos[of True] ops have k: "0 < k" by auto
    from parse_expr_loop_right_chain[OF ops k, of "[a]" MAX_OUTPUT] room
    have "parse_expr_loop \<lparr>input = infix_chain ovs, output' = [a], output_end = MAX_OUTPUT\<rparr> 0
       = Inr \<lparr>input = [], output' = a # right_chain ovs, output_end = MAX_OUTPUT\<rparr>" by simp
    from parse_chain[OF a this] room show ?thesis by simp
  qed
  have tests: "parse ''a+b+c'' = Inr (''ab+c+'' @ [NUL])" "parse ''a=b=c'' = Inr (''abc=='' @ [NUL])"
    by (simp_all add: parse_eval)
  from left right tests show ?thesis by blast
qed

theorem parse_associativity_witness:
  "isalpha (CHR ''a'') \<and> isalpha (CHR ''b'') \<and> isalpha (CHR ''c'') \<and> isalpha (CHR ''d'')
   \<and> operator_info (CHR ''+'') = Some additive_op \<and> operator_info (CHR ''-'') = Some additive_op
   \<and> precedence additive_op = 10 \<and> \<not> right_associative additive_op
   \<and> parse ''a+b-c+d'' = Inr (''ab+c-d+'' @ [NUL])
   \<and> operator_info (CHR ''='') = Some assignment_op
   \<and> precedence assignment_op = 1 \<and> right_associative assignment_op
   \<and> parse ''a=b=c=d'' = Inr (''abcd==='' @ [NUL])"
  using parse_associativity [of "CHR ''a''"
      "[(CHR ''+'', CHR ''b''), (CHR ''-'', CHR ''c''), (CHR ''+'', CHR ''d'')]" 10]
    parse_associativity [of "CHR ''a''"
      "[(CHR ''='', CHR ''b''), (CHR ''='', CHR ''c''), (CHR ''='', CHR ''d'')]" 1]
  by (simp add: isalpha_def operator_info_def additive_op_def assignment_op_def MAX_OUTPUT_def
      infix_chain_def left_chain_def right_chain_def)

text \<open>
  Claim C4. Of two neighbouring operators the one of higher precedence binds the operand
  they share and comes first in the output, and parentheses override precedence, whatever
  the two operators are: a group is parsed as one operand. On the test inputs: \<open>a+b*c\<close>
  gives \<open>abc*+\<close>, \<open>a*b+c\<close> gives \<open>ab*c+\<close>, and \<open>(a+b)*c\<close> gives \<open>ab+c*\<close>.
\<close>

theorem parse_precedence:
  "(isalpha a \<and> isalpha b \<and> isalpha c
      \<and> operator_info o1 = Some d1 \<and> operator_info o2 = Some d2 \<longrightarrow>
        (precedence d1 < precedence d2 \<longrightarrow> parse [a, o1, b, o2, c] = Inr [a, b, c, o2, o1, NUL])
      \<and> (precedence d2 < precedence d1 \<longrightarrow> parse [a, o1, b, o2, c] = Inr [a, b, o1, c, o2, NUL])
      \<and> parse [CHR ''('', a, o1, b, CHR '')'', o2, c] = Inr [a, b, o1, c, o2, NUL]
      \<and> parse [a, o1, CHR ''('', b, o2, c, CHR '')''] = Inr [a, b, c, o2, o1, NUL])
   \<and> parse ''a+b*c'' = Inr (''abc*+'' @ [NUL])
   \<and> parse ''a*b+c'' = Inr (''ab*c+'' @ [NUL])
   \<and> parse ''(a+b)*c'' = Inr (''ab+c*'' @ [NUL])"
proof -
  have tests: "parse ''a+b*c'' = Inr (''abc*+'' @ [NUL])" "parse ''a*b+c'' = Inr (''ab*c+'' @ [NUL])"
    "parse ''(a+b)*c'' = Inr (''ab+c*'' @ [NUL])"
    by (simp_all add: parse_eval)
  from parse_higher_second[of a b c o1 d1 o2 d2] parse_higher_first[of a b c o1 d1 o2 d2]
    parse_group_first[of a b c o1 d1 o2 d2] parse_group_second[of a b c o1 d1 o2 d2] tests
  show ?thesis by blast
qed

theorem parse_precedence_witness:
  "isalpha (CHR ''x'') \<and> isalpha (CHR ''y'') \<and> isalpha (CHR ''z'')
   \<and> operator_info (CHR ''-'') = Some additive_op \<and> operator_info (CHR ''/'') = Some multiplicative_op
   \<and> precedence additive_op < precedence multiplicative_op
   \<and> parse ''x-y/z'' = Inr (''xyz/-'' @ [NUL])
   \<and> parse ''x/y-z'' = Inr (''xy/z-'' @ [NUL])
   \<and> parse ''(x-y)/z'' = Inr (''xy-z/'' @ [NUL])
   \<and> parse ''x/(y-z)'' = Inr (''xyz-/'' @ [NUL])"
  using parse_precedence [of "CHR ''x''" "CHR ''y''" "CHR ''z''" "CHR ''-''" additive_op
      "CHR ''/''" multiplicative_op]
    parse_precedence [of "CHR ''x''" "CHR ''y''" "CHR ''z''" "CHR ''/''" multiplicative_op
      "CHR ''-''" additive_op]
  by (simp add: isalpha_def operator_info_def additive_op_def multiplicative_op_def)

section \<open>The unary operator\<close>

text \<open>
  Claim C5. When the next character is \<open>~\<close>, the primary parser consumes it, parses one
  primary expression recursively and emits \<open>~\<close> after what the operand emitted. Nesting is
  arbitrary: any number \<open>n\<close> of \<open>~\<close> before a variable comes out as the variable followed
  by \<open>n\<close> times \<open>~\<close> (as long as the output and its NUL fit the buffer, \<open>n \<le> 1022\<close>).
  The unary operator binds tighter than every binary operator: in \<open>~a op b\<close> it applies
  to \<open>a\<close> alone, and in \<open>a op ~b\<close> it is emitted before the binary operator. On the test
  inputs: \<open>~a\<close> gives \<open>a~\<close>, \<open>~~a\<close> gives \<open>a~~\<close> and \<open>a*~b\<close> gives \<open>ab~*\<close>.
\<close>

theorem unary_operator:
  "(peek_next_char p = CHR ''~'' \<longrightarrow>
      parse_primary p =
        (case parse_primary (p\<lparr>input := tl (input p)\<rparr>) of
           Inl e \<Rightarrow> Inl e
         | Inr p2 \<Rightarrow> emit p2 (CHR ''~'')))
   \<and> (isalpha v \<and> n \<le> 1022 \<longrightarrow>
        parse (replicate n (CHR ''~'') @ [v]) = Inr (v # replicate n (CHR ''~'') @ [NUL]))
   \<and> (isalpha a \<and> isalpha b \<and> operator_info ch = Some opi \<longrightarrow>
        parse [CHR ''~'', a, ch, b] = Inr [a, CHR ''~'', b, ch, NUL]
        \<and> parse [a, ch, CHR ''~'', b] = Inr [a, b, CHR ''~'', ch, NUL])
   \<and> parse ''~a'' = Inr (''a~'' @ [NUL])
   \<and> parse ''~~a'' = Inr (''a~~'' @ [NUL])
   \<and> parse ''a*~b'' = Inr (''ab~*'' @ [NUL])"
proof -
  have step: "peek_next_char p = CHR ''~'' \<longrightarrow>
      parse_primary p =
        (case parse_primary (p\<lparr>input := tl (input p)\<rparr>) of
           Inl e \<Rightarrow> Inl e
         | Inr p2 \<Rightarrow> emit p2 (CHR ''~''))"
    by (subst parse_primary.simps) (simp add: next_char_def NUL_def)
  have nest: "isalpha v \<and> n \<le> 1022 \<longrightarrow>
        parse (replicate n (CHR ''~'') @ [v]) = Inr (v # replicate n (CHR ''~'') @ [NUL])"
    using parse_nested_unary by blast
  have bind: "isalpha a \<and> isalpha b \<and> operator_info ch = Some opi \<longrightarrow>
        parse [CHR ''~'', a, ch, b] = Inr [a, CHR ''~'', b, ch, NUL]
        \<and> parse [a, ch, CHR ''~'', b] = Inr [a, b, CHR ''~'', ch, NUL]"
    using parse_unary_binds_tighter by blast
  have tests: "parse ''~a'' = Inr (''a~'' @ [NUL])" "parse ''~~a'' = Inr (''a~~'' @ [NUL])"
    "parse ''a*~b'' = Inr (''ab~*'' @ [NUL])"
    by (simp_all add: parse_eval)
  from step nest bind tests show ?thesis by blast
qed

theorem unary_operator_witness:
  "peek_next_char \<lparr>input = ''~a'', output' = [], output_end = 8\<rparr> = CHR ''~''
   \<and> parse_primary \<lparr>input = ''~a'', output' = [], output_end = 8\<rparr>
       = (case parse_primary \<lparr>input = ''a'', output' = [], output_end = 8\<rparr> of
            Inl e \<Rightarrow> Inl e
          | Inr p2 \<Rightarrow> emit p2 (CHR ''~''))
   \<and> isalpha (CHR ''x'') \<and> (3::nat) \<le> 1022
   \<and> parse ''~~~x'' = Inr (''x~~~'' @ [NUL])
   \<and> isalpha (CHR ''y'') \<and> operator_info (CHR ''*'') = Some multiplicative_op
   \<and> parse ''~x*y'' = Inr (''x~y*'' @ [NUL])
   \<and> parse ''x*~y'' = Inr (''xy~*'' @ [NUL])"
  using unary_operator [of "\<lparr>input = ''~a'', output' = [], output_end = 8\<rparr>"
      "CHR ''x''" 3 "CHR ''x''" "CHR ''y''" "CHR ''*''" multiplicative_op]
  by (simp add: peek_next_char_def isalpha_def operator_info_def numeral_3_eq_3)

section \<open>Emitted tokens against consumed tokens\<close>

text \<open>
  Claim C6. When parse succeeds, the output is a payload followed by the terminating NUL;
  the payload holds no NUL and holds exactly the characters of the input (the C string
  given to parse) that are not parentheses, each as often as the input does: every variable
  and operator that was consumed is emitted once, and \<open>(\<close> and \<open>)\<close> emit nothing. So
  the length of the payload is the length of the input minus the number of parentheses.
\<close>

theorem parse_output_tokens:
  assumes "parse inp = Inr out"
  shows "\<exists>payload. out = payload @ [NUL] \<and> NUL \<notin> set payload
     \<and> mset payload = mset (filter (\<lambda>c. \<not> is_paren c) (c_string inp))
     \<and> length payload = length (c_string inp) - length (filter is_paren (c_string inp))"
proof -
  let ?p0 = "\<lparr>input = inp, output' = [], output_end = MAX_OUTPUT\<rparr>"
  from assms obtain p1 p3 where run: "parse_expr ?p0 0 = Inr p1" and at_end: "peek_next_char p1 = NUL"
    and em: "emit p1 NUL = Inr p3" and out: "out = output' p3"
    by (rule parse_Inr_cases)
  from successful_call_frame(2) run obtain cs es where ce: "consumed_emitted ?p0 p1 cs es"
    by blast
  then have inp: "inp = cs @ input p1" and nul: "NUL \<notin> set cs" and es: "output' p1 = es"
    and ms: "mset es = mset (filter (\<lambda>c. \<not> is_paren c) cs)"
    by (auto simp: consumed_emitted_def)
  have cs: "c_string inp = cs" using c_string_consumed[OF nul at_end] inp by simp
  have "set es \<subseteq> set cs" using ms by (metis filter_is_subset mset_eq_setD)
  with nul have a: "NUL \<notin> set es" by blast
  have "length es = length (filter (\<lambda>c. \<not> is_paren c) cs)" using ms by (rule mset_eq_length)
  also have "\<dots> = length cs - length (filter is_paren cs)"
    using sum_length_filter_compl[of is_paren cs] by simp
  finally have b: "length es = length cs - length (filter is_paren cs)" .
  have "out = es @ [NUL]" using emit_appends(2)[OF em] out es by simp
  with a b ms cs show ?thesis by blast
qed

theorem parse_output_tokens_witness:
  "parse ''(a+b)*c'' = Inr (''ab+c*'' @ [NUL])
   \<and> (\<exists>payload. ''ab+c*'' @ [NUL] = payload @ [NUL] \<and> NUL \<notin> set payload
     \<and> mset payload = mset (filter (\<lambda>c. \<not> is_paren c) (c_string ''(a+b)*c''))
     \<and> length payload = length (c_string ''(a+b)*c'') - length (filter is_paren (c_string ''(a+b)*c'')))"
proof -
  have h: "parse ''(a+b)*c'' = Inr (''ab+c*'' @ [NUL])" by (simp add: parse_eval)
  from parse_output_tokens[OF h] h show ?thesis by blast
qed

section \<open>Unexpected tokens\<close>

text \<open>
  Claim C7. Whenever the primary parser is called and the next character is neither a
  letter nor \<open>~\<close> nor \<open>(\<close>, the call fails with \<open>UnexpectedToken\<close> naming that character;
  this includes the cursor at the end sentinel, where the character named is NUL, and so
  the empty input. When such a call is made anywhere in the run of \<open>parse\<close>, the whole
  parse fails with that error. It is the only way to this error: when \<open>parse\<close> fails with
  \<open>UnexpectedToken x\<close>, some call of the primary parser made in the run found \<open>x\<close> as
  the next character, and \<open>x\<close> is neither a letter nor \<open>~\<close> nor \<open>(\<close>.
\<close>

theorem unexpected_token:
  "(\<not> isalpha (peek_next_char p) \<and> peek_next_char p \<noteq> CHR ''~'' \<and> peek_next_char p \<noteq> CHR ''(''
      \<longrightarrow> parse_primary p = Inl (UnexpectedToken (peek_next_char p)))
   \<and> (peek_next_char p = NUL \<longrightarrow> parse_primary p = Inl (UnexpectedToken NUL))
   \<and> (subcall\<^sup>*\<^sup>* (Expr (initial inp) 0) (Primary p) \<and> \<not> isalpha (peek_next_char p)
        \<and> peek_next_char p \<noteq> CHR ''~'' \<and> peek_next_char p \<noteq> CHR ''(''
      \<longrightarrow> parse inp = Inl (UnexpectedToken (peek_next_char p)))
   \<and> (parse inp = Inl (UnexpectedToken x)
      \<longrightarrow> (\<exists>q. subcall\<^sup>*\<^sup>* (Expr (initial inp) 0) (Primary q) \<and> peek_next_char q = x
             \<and> \<not> isalpha x \<and> x \<noteq> CHR ''~'' \<and> x \<noteq> CHR ''(''))
   \<and> parse [] = Inl (UnexpectedToken NUL)"
proof -
  have local: "parse_primary q = Inl (UnexpectedToken (peek_next_char q))"
    if "\<not> isalpha (peek_next_char q)" "peek_next_char q \<noteq> CHR ''~''" "peek_next_char q \<noteq> CHR ''(''"
    for q
    using that raises_run[of "Primary q" "UnexpectedToken (peek_next_char q)"]
    by (simp add: raises_unexpected)
  have sentinel: "parse_primary p = Inl (UnexpectedToken NUL)" if "peek_next_char p = NUL"
    using local[of p] that not_isalpha_special(1) by (simp add: NUL_def)
  have whole: "parse inp = Inl (UnexpectedToken (peek_next_char p))"
    if "subcall\<^sup>*\<^sup>* (Expr (initial inp) 0) (Primary p)" "\<not> isalpha (peek_next_char p)"
      "peek_next_char p \<noteq> CHR ''~''" "peek_next_char p \<noteq> CHR ''(''"
  proof -
    have "run (Primary p) = Inl (UnexpectedToken (peek_next_char p))"
      using local[of p] that by simp
    from reach_propagates[OF that(1) this] show ?thesis
      by (simp add: parse_inner_failure)
  qed
  have only: "\<exists>q. subcall\<^sup>*\<^sup>* (Expr (initial inp) 0) (Primary q) \<and> peek_next_char q = x
             \<and> \<not> isalpha x \<and> x \<noteq> CHR ''~'' \<and> x \<noteq> CHR ''(''"
    if "parse inp = Inl (UnexpectedToken x)"
  proof -
    from that have "run (Expr (initial inp) 0) = Inl (UnexpectedToken x)"
      by (cases rule: parse_Inl_cases) (auto simp: expect_Inl)
    then obtain c' where "subcall\<^sup>*\<^sup>* (Expr (initial inp) 0) c'" "raises c' (UnexpectedToken x)"
      using failure_origin_exists by blast
    then show ?thesis by (auto simp: raises_unexpected)
  qed
  have empty: "parse [] = Inl (UnexpectedToken NUL)"
    by (simp add: parse_eval)
  from local[of p] sentinel whole only empty show ?thesis by blast
qed

theorem unexpected_token_witness:
  "subcall\<^sup>*\<^sup>* (Expr (initial ''a+'') 0)
      (Primary \<lparr>input = [], output' = ''a'', output_end = MAX_OUTPUT\<rparr>)
   \<and> peek_next_char \<lparr>input = [], output' = ''a'', output_end = MAX_OUTPUT\<rparr> = NUL
   \<and> \<not> isalpha NUL \<and> NUL \<noteq> CHR ''~'' \<and> NUL \<noteq> CHR ''(''
   \<and> parse_primary \<lparr>input = [], output' = ''a'', output_end = MAX_OUTPUT\<rparr>
       = Inl (UnexpectedToken NUL)
   \<and> parse ''a+'' = Inl (UnexpectedToken NUL)
   \<and> (\<exists>q. subcall\<^sup>*\<^sup>* (Expr (initial ''a+'') 0) (Primary q) \<and> peek_next_char q = NUL)"
proof -
  let ?p1 = "\<lparr>input = ''+'', output' = ''a'', output_end = MAX_OUTPUT\<rparr>"
  let ?p2 = "\<lparr>input = [], output' = ''a'', output_end = MAX_OUTPUT\<rparr>"
  have s1: "subcall (Expr (initial ''a+'') 0) (Loop ?p1 0)"
    by (rule enter_loop) (simp add: parse_eval)
  have s2: "subcall (Loop ?p1 0) (Expr ?p2 10)"
    using right_operand[of ?p1 additive_op 0 "CHR ''+''" ?p2]
    by (simp add: peek_next_char_def next_char_def operator_info_def additive_op_def NUL_def)
  have s3: "subcall (Expr ?p2 10) (Primary ?p2)"
    by (rule first_primary)
  have chain: "subcall\<^sup>*\<^sup>* (Expr (initial ''a+'') 0) (Primary ?p2)"
    using s1 s2 s3 by (meson rtranclp.rtrancl_into_rtrancl rtranclp.rtrancl_refl)
  have bad: "peek_next_char ?p2 = NUL" "\<not> isalpha NUL" "NUL \<noteq> CHR ''~''" "NUL \<noteq> CHR ''(''"
    by (simp_all add: peek_next_char_def isalpha_def NUL_def)
  have h: "parse ''a+'' = Inl (UnexpectedToken NUL)"
    by (simp add: parse_eval)
  from unexpected_token[of ?p2 "''a+''" NUL] chain bad h show ?thesis by simp
qed

section \<open>Token mismatches\<close>

text \<open>
  Claim C8, as amended. \<open>parse\<close> fails with \<open>TokenMismatch e g\<close>, naming the expected and
  the actual character, in exactly two situations: a call of the primary parser made in
  the run has consumed \<open>(\<close>, the expression inside has been parsed, and the next character
  \<open>g\<close> is not \<open>)\<close> (then \<open>e\<close> is \<open>)\<close>; \<open>g\<close> may be the end sentinel); or the top-level
  expression has been parsed and the next character \<open>g\<close> is not the end sentinel (then
  \<open>e\<close> is NUL). A parse whose top-level expression is followed by the end sentinel does
  not raise \<open>TokenMismatch\<close>.
\<close>

theorem token_mismatch:
  "(parse inp = Inl (TokenMismatch e g) \<longleftrightarrow>
      (\<exists>p p1 p2. subcall\<^sup>*\<^sup>* (Expr (initial inp) 0) (Primary p)
          \<and> next_char p = (CHR ''('', p1) \<and> parse_expr p1 0 = Inr p2
          \<and> g = peek_next_char p2 \<and> g \<noteq> CHR '')'' \<and> e = CHR '')'')
      \<or> (\<exists>p1. parse_expr (initial inp) 0 = Inr p1
          \<and> g = peek_next_char p1 \<and> g \<noteq> NUL \<and> e = NUL))
   \<and> (parse_expr (initial inp) 0 = Inr q \<and> peek_next_char q = NUL
        \<longrightarrow> parse inp \<noteq> Inl (TokenMismatch e g))"
proof -
  let ?top = "Expr (initial inp) 0"
  let ?A = "\<exists>p p1 p2. subcall\<^sup>*\<^sup>* ?top (Primary p)
          \<and> next_char p = (CHR ''('', p1) \<and> parse_expr p1 0 = Inr p2
          \<and> g = peek_next_char p2 \<and> g \<noteq> CHR '')'' \<and> e = CHR '')''"
  let ?B = "\<exists>p1. parse_expr (initial inp) 0 = Inr p1
          \<and> g = peek_next_char p1 \<and> g \<noteq> NUL \<and> e = NUL"
  have inner: "run ?top = Inl (TokenMismatch e g) \<longleftrightarrow> ?A"
    unfolding failure_origin raises_mismatch by blast
  have forward: "?A \<or> ?B" if "parse inp = Inl (TokenMismatch e g)"
    using that
  proof (cases rule: parse_Inl_cases)
    case inner
    then show ?thesis using \<open>run ?top = Inl (TokenMismatch e g) \<longleftrightarrow> ?A\<close> by simp
  next
    case (trailing p1)
    then show ?thesis by (auto simp: expect_Inl)
  next
    case (sentinel p1)
    then show ?thesis by simp
  qed
  have backA: "parse inp = Inl (TokenMismatch e g)" if ?A
    using that inner parse_inner_failure[of inp "TokenMismatch e g"] by simp
  have backB: "parse inp = Inl (TokenMismatch e g)" if ?B
  proof -
    from that obtain p1 where p1: "parse_expr (initial inp) 0 = Inr p1"
      "g = peek_next_char p1" "g \<noteq> NUL" "e = NUL" by blast
    then have "expect p1 NUL = Inl (TokenMismatch e g)" by (simp add: expect_Inl)
    with p1(1) show ?thesis by (simp add: parse_def)
  qed
  have complete: "parse inp \<noteq> Inl (TokenMismatch e g)"
    if "parse_expr (initial inp) 0 = Inr q" "peek_next_char q = NUL"
  proof
    assume "parse inp = Inl (TokenMismatch e g)"
    from forward[OF this] show False
    proof
      assume ?A
      then have "run ?top = Inl (TokenMismatch e g)" using inner by blast
      then have "parse_expr (initial inp) 0 = Inl (TokenMismatch e g)" by simp
      with that(1) show False by simp
    next
      assume ?B
      with that show False by auto
    qed
  qed
  from forward backA backB complete show ?thesis by blast
qed

theorem token_mismatch_witness:
  "subcall\<^sup>*\<^sup>* (Expr (initial ''(a'') 0) (Primary (initial ''(a''))
   \<and> next_char (initial ''(a'') = (CHR ''('', initial ''a'')
   \<and> parse_expr (initial ''a'') 0 = Inr \<lparr>input = [], output' = ''a'', output_end = MAX_OUTPUT\<rparr>
   \<and> peek_next_char \<lparr>input = [], output' = ''a'', output_end = MAX_OUTPUT\<rparr> = NUL
   \<and> NUL \<noteq> CHR '')''
   \<and> parse ''(a'' = Inl (TokenMismatch (CHR '')'') NUL)
   \<and> parse ''a'' \<noteq> Inl (TokenMismatch (CHR '')'') NUL)
   \<and> parse_expr (initial ''ab'') 0 = Inr \<lparr>input = ''b'', output' = ''a'', output_end = MAX_OUTPUT\<rparr>
   \<and> peek_next_char \<lparr>input = ''b'', output' = ''a'', output_end = MAX_OUTPUT\<rparr> = CHR ''b''
   \<and> CHR ''b'' \<noteq> NUL
   \<and> parse ''ab'' = Inl (TokenMismatch NUL (CHR ''b''))"
proof -
  let ?q = "\<lparr>input = [], output' = ''a'', output_end = MAX_OUTPUT\<rparr>"
  have chain: "subcall\<^sup>*\<^sup>* (Expr (initial ''(a'') 0) (Primary (initial ''(a''))"
    using first_primary[of "initial ''(a''" 0] by blast
  have nc: "next_char (initial ''(a'') = (CHR ''('', initial ''a'')"
    by (simp add: next_char_def peek_next_char_def NUL_def)
  have body: "parse_expr (initial ''a'') 0 = Inr ?q"
    by (simp add: parse_eval)
  have at_end: "peek_next_char ?q = NUL" "NUL \<noteq> CHR '')''"
    by (simp_all add: peek_next_char_def NUL_def)
  have "\<exists>p p1 p2. subcall\<^sup>*\<^sup>* (Expr (initial ''(a'') 0) (Primary p)
          \<and> next_char p = (CHR ''('', p1) \<and> parse_expr p1 0 = Inr p2
          \<and> NUL = peek_next_char p2 \<and> NUL \<noteq> CHR '')'' \<and> CHR '')'' = CHR '')''"
    using chain nc body at_end by (intro exI[of _ "initial ''(a''"] exI[of _ "initial ''a''"] exI[of _ ?q]) simp
  then have "parse ''(a'' = Inl (TokenMismatch (CHR '')'') NUL)"
    using token_mismatch[of "''(a''" "CHR '')''" NUL ?q] by blast
  moreover have "parse ''a'' \<noteq> Inl (TokenMismatch (CHR '')'') NUL)"
    using token_mismatch[of "''a''" "CHR '')''" NUL ?q] body at_end by blast
  moreover have trail: "parse_expr (initial ''ab'') 0
      = Inr \<lparr>input = ''b'', output' = ''a'', output_end = MAX_OUTPUT\<rparr>"
    "peek_next_char \<lparr>input = ''b'', output' = ''a'', output_end = MAX_OUTPUT\<rparr> = CHR ''b''"
    "CHR ''b'' \<noteq> NUL"
    by (simp_all add: parse_eval)
  moreover have "parse ''ab'' = Inl (TokenMismatch NUL (CHR ''b''))"
  proof -
    have "\<exists>p1. parse_expr (initial ''ab'') 0 = Inr p1
        \<and> CHR ''b'' = peek_next_char p1 \<and> CHR ''b'' \<noteq> NUL \<and> NUL = NUL"
      using trail by simp
    then show ?thesis
      using token_mismatch[of "''ab''" NUL "CHR ''b''" ?q] by blast
  qed
  ultimately show ?thesis using chain nc body at_end by blast
qed

text \<open>
  The claim as first stated says that a parse that consumes the whole input up to the
  sentinel does not raise \<open>TokenMismatch\<close>. On the input \<open>(a\<close> the parser consumes \<open>(\<close>
  and \<open>a\<close>, which leaves the cursor at the sentinel, and then fails with
  \<open>TokenMismatch\<close>, expecting \<open>)\<close> and getting NUL.
\<close>

theorem token_mismatch_counterexample:
  "next_char (initial ''(a'') = (CHR ''('', initial ''a'')
   \<and> parse_expr (initial ''a'') 0 = Inr \<lparr>input = [], output' = ''a'', output_end = MAX_OUTPUT\<rparr>
   \<and> parse ''(a'' = Inl (TokenMismatch (CHR '')'') NUL)"
  by (simp add: parse_eval)

section \<open>Termination\<close>

text \<open>
  Claim C9. \<open>parse\<close> terminates on every input, with an output or with an error: the three
  functions are total, since every argument is in the domain on which their recursion is
  well-founded, and no chain of nested calls is infinite, since each call made from within
  a call has a smaller measure (the remaining input first, then the procedure). The reasons
  are those of the claim. Away from the sentinel, reading a character moves the cursor by
  one; at the sentinel the cursor stays, and there the primary parser fails with
  \<open>UnexpectedToken\<close> and makes no call. A call made by the primary parser is made after one
  character has been consumed, and so is the recursive call made by an iteration of the
  loop of the climber. A successful call of the primary parser or of the climber hands
  back a shorter input, and a successful run of the loop an input that is not longer.
\<close>

theorem parse_terminates:
  "parse_primary_parse_expr_parse_expr_loop_dom x
   \<and> wfp (\<lambda>c' c. subcall c c')
   \<and> (subcall c c' \<longrightarrow> call_measure c' < call_measure c)
   \<and> (peek_next_char p \<noteq> NUL \<longrightarrow>
        next_char p = (peek_next_char p, p\<lparr>input := tl (input p)\<rparr>)
        \<and> length (input (p\<lparr>input := tl (input p)\<rparr>)) < length (input p))
   \<and> (peek_next_char q = NUL \<longrightarrow>
        next_char q = (NUL, q) \<and> parse_primary q = Inl (UnexpectedToken NUL)
        \<and> \<not> subcall (Primary q) d)
   \<and> (subcall (Primary r) d' \<longrightarrow>
        peek_next_char r \<noteq> NUL
        \<and> (d' = Primary (r\<lparr>input := tl (input r)\<rparr>) \<or> d' = Expr (r\<lparr>input := tl (input r)\<rparr>) 0))
   \<and> (subcall (Loop s prec) (Expr s1 prec') \<longrightarrow>
        peek_next_char s \<noteq> NUL \<and> s1 = s\<lparr>input := tl (input s)\<rparr>)
   \<and> (parse_primary t = Inr t' \<longrightarrow> length (input t') < length (input t))
   \<and> (parse_expr u f = Inr u' \<longrightarrow> length (input u') < length (input u))
   \<and> (parse_expr_loop v g = Inr v' \<longrightarrow> length (input v') \<le> length (input v))"
proof -
  have wf: "wfp (\<lambda>c' c. subcall c c')"
    by (rule wfp_if_convertible_to_nat[of _ call_measure]) (rule subcall_measure)
  have adv: "peek_next_char p \<noteq> NUL \<longrightarrow>
        next_char p = (peek_next_char p, p\<lparr>input := tl (input p)\<rparr>)
        \<and> length (input (p\<lparr>input := tl (input p)\<rparr>)) < length (input p)"
    using next_char_advances[of p] by auto
  have sent: "peek_next_char q = NUL \<longrightarrow>
        next_char q = (NUL, q) \<and> parse_primary q = Inl (UnexpectedToken NUL)
        \<and> \<not> subcall (Primary q) d"
  proof
    assume q: "peek_next_char q = NUL"
    have "parse_primary q = Inl (UnexpectedToken NUL)"
      using next_char_at_sentinel[OF q] not_isalpha_special(1)
      by (subst parse_primary.simps) (simp add: NUL_def)
    with q next_char_at_sentinel[OF q] subcall_of_primary[of q d]
    show "next_char q = (NUL, q) \<and> parse_primary q = Inl (UnexpectedToken NUL)
        \<and> \<not> subcall (Primary q) d" by blast
  qed
  from all_calls_terminate[of x] wf subcall_measure[of c c'] adv sent
    subcall_of_primary[of r d'] subcall_of_loop[of s prec s1 prec']
    parse_primary_input_less[of t t'] parse_expr_input_less[of u f u']
    parse_expr_loop_input_le[of v g v']
  show ?thesis by blast
qed

theorem parse_terminates_witness:
  "subcall (Primary (initial ''~a'')) (Primary (initial ''a''))
   \<and> call_measure (Primary (initial ''a'')) < call_measure (Primary (initial ''~a''))
   \<and> peek_next_char (initial ''~a'') \<noteq> NUL
   \<and> next_char (initial ''~a'') = (CHR ''~'', initial ''a'')
   \<and> peek_next_char (initial []) = NUL
   \<and> next_char (initial []) = (NUL, initial [])
   \<and> parse_primary (initial []) = Inl (UnexpectedToken NUL)
   \<and> subcall (Loop (initial ''+b'') 0) (Expr (initial ''b'') 10)
   \<and> parse_primary (initial ''a+b'') = Inr \<lparr>input = ''+b'', output' = ''a'', output_end = MAX_OUTPUT\<rparr>
   \<and> length ''+b'' < length ''a+b''
   \<and> parse_expr (initial ''a+b'') 0 = Inr \<lparr>input = [], output' = ''ab+'', output_end = MAX_OUTPUT\<rparr>
   \<and> parse_expr_loop (initial ''+b'') 10 = Inr (initial ''+b'')"
proof -
  have s1: "subcall (Primary (initial ''~a'')) (Primary (initial ''a''))"
    by (rule unary_operand) (simp add: next_char_def peek_next_char_def NUL_def)
  have s2: "subcall (Loop (initial ''+b'') 0) (Expr (initial ''b'') 10)"
    using right_operand[of "initial ''+b''" additive_op 0 "CHR ''+''" "initial ''b''"]
    by (simp add: peek_next_char_def next_char_def operator_info_def additive_op_def NUL_def)
  have h: "peek_next_char (initial ''~a'') \<noteq> NUL" "peek_next_char (initial []) = NUL"
    by (simp_all add: peek_next_char_def NUL_def)
  have r: "parse_primary (initial ''a+b'') = Inr \<lparr>input = ''+b'', output' = ''a'', output_end = MAX_OUTPUT\<rparr>"
    "parse_expr (initial ''a+b'') 0 = Inr \<lparr>input = [], output' = ''ab+'', output_end = MAX_OUTPUT\<rparr>"
    "parse_expr_loop (initial ''+b'') 10 = Inr (initial ''+b'')"
    by (simp_all add: parse_eval)
  from parse_terminates[of "Inl (initial ''~a'')" "Primary (initial ''~a'')" "Primary (initial ''a'')"
      "initial ''~a''" "initial []" "Primary (initial [])" "initial ''~a''" "Primary (initial ''a'')"
      "initial ''+b''" 0 "initial ''b''" 10
      "initial ''a+b''" "\<lparr>input = ''+b'', output' = ''a'', output_end = MAX_OUTPUT\<rparr>"
      "initial ''a+b''" 0 "\<lparr>input = [], output' = ''ab+'', output_end = MAX_OUTPUT\<rparr>"
      "initial ''+b''" 10 "initial ''+b''"]
    s1 s2 h r
  show ?thesis by (simp add: peek_next_char_def)
qed

section \<open>The capacity of the output buffer\<close>

text \<open>
  Claim C10. The capacity of the output buffer is 1024, and the terminating NUL is written
  by the same bounded \<^verbatim>\<open>emit\<close> as every other character, so it counts against the
  capacity: when \<open>parse\<close> succeeds, the output with its NUL holds at most 1024 characters,
  the payload at most 1023. An input that is valid otherwise (it has a postfix form when
  the buffer is large enough) fails with \<open>OutputOverflow\<close> when its postfix form with the
  NUL is longer than 1024, and gives that postfix form when it is not. With 1023 times
  \<open>~\<close> before a variable, the 1024 characters of the payload are all written and it is
  the NUL that overflows; with 1022 times \<open>~\<close> the parse succeeds.
\<close>

theorem output_capacity:
  "MAX_OUTPUT = 1024
   \<and> (parse inp = Inr out \<longrightarrow>
        length out \<le> 1024 \<and> (\<exists>payload. out = payload @ [NUL] \<and> length payload \<le> 1023))
   \<and> (parse_capacity cap inp' = Inr out' \<and> 1024 < length out' \<longrightarrow> parse inp' = Inl OutputOverflow)
   \<and> (parse_capacity cap inp' = Inr out' \<and> length out' \<le> 1024 \<longrightarrow> parse inp' = Inr out')
   \<and> parse_expr (initial (replicate 1023 (CHR ''~'') @ ''a'')) 0
       = Inr \<lparr>input = [], output' = CHR ''a'' # replicate 1023 (CHR ''~''), output_end = MAX_OUTPUT\<rparr>
   \<and> parse (replicate 1023 (CHR ''~'') @ ''a'') = Inl OutputOverflow
   \<and> parse (replicate 1022 (CHR ''~'') @ ''a'') = Inr (CHR ''a'' # replicate 1022 (CHR ''~'') @ [NUL])"
proof -
  have a: "length out \<le> 1024 \<and> (\<exists>payload. out = payload @ [NUL] \<and> length payload \<le> 1023)"
    if "parse inp = Inr out"
  proof -
    from that have pc: "parse_capacity MAX_OUTPUT inp = Inr out"
      by (simp add: parse_is_parse_capacity)
    from parse_capacity_change[OF pc, of MAX_OUTPUT] pc have "length out \<le> 1024"
      by (simp add: MAX_OUTPUT_def split: if_splits)
    moreover from pc obtain p1 p3 where "emit p1 NUL = Inr p3" "out = output' p3"
      by (rule parse_capacity_Inr_cases)
    then have "out = output' p1 @ [NUL]" using emit_appends(2) by simp
    ultimately show ?thesis by auto
  qed
  have b: "parse inp' = (if length out' \<le> 1024 then Inr out' else Inl OutputOverflow)"
    if "parse_capacity cap inp' = Inr out'"
    using parse_capacity_change[OF that, of MAX_OUTPUT]
    by (simp add: parse_is_parse_capacity MAX_OUTPUT_def)
  have alpha: "isalpha (CHR ''a'')" by (simp add: isalpha_def)
  have c: "parse_expr (initial (replicate 1023 (CHR ''~'') @ ''a'')) 0
       = Inr \<lparr>input = [], output' = CHR ''a'' # replicate 1023 (CHR ''~''), output_end = MAX_OUTPUT\<rparr>"
    using alpha
    by (simp add: parse_expr.simps parse_primary_nested_unary parse_expr_loop_at_end MAX_OUTPUT_def)
  have d: "parse (replicate 1023 (CHR ''~'') @ ''a'') = Inl OutputOverflow"
    "parse (replicate 1022 (CHR ''~'') @ ''a'') = Inr (CHR ''a'' # replicate 1022 (CHR ''~'') @ [NUL])"
    using alpha
    by (simp_all add: parse_is_parse_capacity parse_capacity_nested_unary MAX_OUTPUT_def)
  from a b c d show ?thesis by (auto simp: MAX_OUTPUT_def)
qed

theorem output_capacity_witness:
  "parse ''a+b'' = Inr (''ab+'' @ [NUL])
   \<and> length (''ab+'' @ [NUL]) \<le> 1024
   \<and> parse_capacity 2000 (replicate 1024 (CHR ''~'') @ ''a'')
       = Inr (CHR ''a'' # replicate 1024 (CHR ''~'') @ [NUL])
   \<and> 1024 < length (CHR ''a'' # replicate 1024 (CHR ''~'') @ [NUL])
   \<and> parse (replicate 1024 (CHR ''~'') @ ''a'') = Inl OutputOverflow
   \<and> parse_capacity 4 ''a+b'' = Inr (''ab+'' @ [NUL])
   \<and> parse ''a+b'' = Inr (''ab+'' @ [NUL])"
proof -
  have h1: "parse ''a+b'' = Inr (''ab+'' @ [NUL])"
    by (simp add: parse_eval)
  have h2: "parse_capacity 2000 (replicate 1024 (CHR ''~'') @ ''a'')
       = Inr (CHR ''a'' # replicate 1024 (CHR ''~'') @ [NUL])"
    by (simp add: parse_capacity_nested_unary isalpha_def)
  have h3: "1024 < length (CHR ''a'' # replicate 1024 (CHR ''~'') @ [NUL])"
    by simp
  have h4: "parse_capacity 4 ''a+b'' = Inr (''ab+'' @ [NUL])"
    by (simp add: parse_capacity_def parse_eval)
  from output_capacity[of "''a+b''" "''ab+'' @ [NUL]" 2000 "replicate 1024 (CHR ''~'') @ ''a''"
      "CHR ''a'' # replicate 1024 (CHR ''~'') @ [NUL]"]
    output_capacity[of "''a+b''" "''ab+'' @ [NUL]" 4 "''a+b''" "''ab+'' @ [NUL]"]
    h1 h2 h3 h4
  show ?thesis by simp
qed

end
